theory Spec2Isabelle
  imports Complex_Main "HOL-Library.Word"
begin

unbundle bit_operations_syntax

section \<open>Automatic channel selection (hostapd ACS): machine integers\<close>

text \<open>
  The C types \<open>u64\<close> and \<open>s8\<close> of hostapd's \<open>utils/common.h\<close>. Arithmetic on \<open>u64\<close>
  wraps modulo \<open>2 ^ 64\<close>; an \<open>s8\<close> is read as two's complement by \<open>sint\<close>.
\<close>

type_synonym u64 = "64 word"
type_synonym s8 = "8 word"

subsection \<open>\<open>base_to_power\<close>\<close>

text \<open>
  The loop \<open>while (pow--) result *= base;\<close>: the test reads \<open>pow\<close>, then decrements it,
  and the body runs when the value read was non-zero.
\<close>

function base_to_power_loop :: "u64 \<Rightarrow> u64 \<Rightarrow> u64 \<Rightarrow> u64" where
  "base_to_power_loop base pow result =
     (if pow = 0 then result
      else base_to_power_loop base (pow - 1) (result * base))"
  by pat_completeness auto
termination
  by (relation "measure (\<lambda>(base, pow, result). unat pow)")
     (auto simp: unat_minus_one unat_gt_0)

declare base_to_power_loop.simps [simp del]

definition base_to_power :: "u64 \<Rightarrow> u64 \<Rightarrow> u64" where
  "base_to_power base pow =
     (if pow = 0 then 1 else base_to_power_loop base (pow - 1) base)"

section \<open>Extended-precision reals\<close>

text \<open>
  A C \<open>long double\<close> is modelled by its IEEE 754 value classes: not-a-number, the two
  infinities and the finite values. Finite arithmetic is taken exact (rounding, overflow
  to infinity and the sign of zero are left out); every operation on the special values
  follows IEEE 754. The zero divisors of this program are conversions of unsigned
  integers, that is, positive zeros. Where a property depends on rounding, the scoring
  function is stated a second time with its rounding explicit (section Scoring with
  rounding).
\<close>

datatype ldouble = NaN | MinusInf | Finite real | PlusInf

definition ld_of_u64 :: "u64 \<Rightarrow> ldouble" where
  "ld_of_u64 w = Finite (real (unat w))"

definition ld_of_nat :: "nat \<Rightarrow> ldouble" where
  "ld_of_nat n = Finite (real n)"

fun ld_neg :: "ldouble \<Rightarrow> ldouble" where
  "ld_neg NaN = NaN"
| "ld_neg MinusInf = PlusInf"
| "ld_neg PlusInf = MinusInf"
| "ld_neg (Finite a) = Finite (- a)"

fun ld_add :: "ldouble \<Rightarrow> ldouble \<Rightarrow> ldouble" where
  "ld_add NaN y = NaN"
| "ld_add x NaN = NaN"
| "ld_add (Finite a) (Finite b) = Finite (a + b)"
| "ld_add PlusInf MinusInf = NaN"
| "ld_add MinusInf PlusInf = NaN"
| "ld_add PlusInf y = PlusInf"
| "ld_add MinusInf y = MinusInf"
| "ld_add (Finite a) y = y"

fun ld_mul :: "ldouble \<Rightarrow> ldouble \<Rightarrow> ldouble" where
  "ld_mul NaN y = NaN"
| "ld_mul x NaN = NaN"
| "ld_mul (Finite a) (Finite b) = Finite (a * b)"
| "ld_mul (Finite a) y = (if a = 0 then NaN else if 0 < a then y else ld_neg y)"
| "ld_mul x (Finite b) = (if b = 0 then NaN else if 0 < b then x else ld_neg x)"
| "ld_mul PlusInf y = y"
| "ld_mul MinusInf y = ld_neg y"

fun ld_div :: "ldouble \<Rightarrow> ldouble \<Rightarrow> ldouble" where
  "ld_div NaN y = NaN"
| "ld_div x NaN = NaN"
| "ld_div (Finite a) (Finite b) =
     (if b \<noteq> 0 then Finite (a / b)
      else if a = 0 then NaN else if 0 < a then PlusInf else MinusInf)"
| "ld_div (Finite a) y = Finite 0"
| "ld_div x (Finite b) = (if 0 \<le> b then x else ld_neg x)"
| "ld_div x y = NaN"

fun ld_log2 :: "ldouble \<Rightarrow> ldouble" where
  "ld_log2 NaN = NaN"
| "ld_log2 MinusInf = NaN"
| "ld_log2 PlusInf = PlusInf"
| "ld_log2 (Finite a) =
     (if a < 0 then NaN else if a = 0 then MinusInf else Finite (log 2 a))"

text \<open>The C comparison \<open>x < y\<close>: false as soon as one side is not a number.\<close>

fun ld_less :: "ldouble \<Rightarrow> ldouble \<Rightarrow> bool" where
  "ld_less NaN y = False"
| "ld_less x NaN = False"
| "ld_less (Finite a) (Finite b) = (a < b)"
| "ld_less MinusInf MinusInf = False"
| "ld_less MinusInf y = True"
| "ld_less x MinusInf = False"
| "ld_less PlusInf y = False"
| "ld_less (Finite a) PlusInf = True"

section \<open>Data model\<close>

text \<open>
  Modelled from the spec: the structures \<open>freq_survey\<close>, \<open>hostapd_channel_data\<close> and
  \<open>hostapd_iface\<close> are declared in \<open>drivers/driver.h\<close> and \<open>ap/hostapd.h\<close>, which are
  not among the sources. The fields below are the ones \<open>acs.c\<close> reads or writes, as the
  data model of the specification lists them: the noise floors are signed 8-bit
  integers and the score is a \<open>long double\<close>; the survey times, integers in the
  specification, are \<open>u64\<close> as in hostapd's \<open>freq_survey\<close>. A
  \<open>dl_list\<close> of surveys is a list, the channel array of \<open>current_mode\<close> is a list whose
  length is \<open>num_channels\<close>. Counters and indices are natural numbers: no property below
  depends on their wrap-around.
\<close>

record freq_survey =
  nf :: s8
  channel_time :: u64
  channel_time_busy :: u64
  channel_time_tx :: u64

record hostapd_channel_data =
  chan :: int
  freq :: nat
  flag :: "32 word"
  survey_list :: "freq_survey list"
  min_nf :: s8
  survey_count :: nat
  survey_interference_factor :: ldouble

datatype scan_callback = Acs_init_scan_complete

record hostapd_iface =
  channels :: "hostapd_channel_data list"
  conf_channel :: int
  conf_acs_num_req_surveys :: nat
  conf_acs_roc_duration_ms :: nat
  off_channel_freq_idx :: nat
  chans_surveyed :: nat
  acs_num_completed_surveys :: nat
  lowest_nf :: s8
  drv_flags :: "32 word"
  scan_cb :: "scan_callback option"

text \<open>
  Modelled from the spec: the enumeration \<open>hostapd_chan_status\<close> and the flag masks
  \<open>HOSTAPD_CHAN_DISABLED\<close> and \<open>WPA_DRIVER_FLAGS_OFFCHANNEL_TX\<close> are declared outside
  \<open>acs.c\<close>. The specification names the three statuses, a \<open>DISABLED\<close> channel flag and an
  off-channel TX capability bit; the functions below only test whether the masked value
  is zero, so the bit positions do not matter.
\<close>

datatype hostapd_chan_status = HOSTAPD_CHAN_VALID | HOSTAPD_CHAN_INVALID | HOSTAPD_CHAN_ACS

definition HOSTAPD_CHAN_DISABLED :: "32 word" where
  "HOSTAPD_CHAN_DISABLED = 0x00000001"

definition WPA_DRIVER_FLAGS_OFFCHANNEL_TX :: "32 word" where
  "WPA_DRIVER_FLAGS_OFFCHANNEL_TX = 0x00008000"

section \<open>Scoring\<close>

text \<open>
  \<open>survey->nf - min_nf\<close> is computed on \<open>int\<close> after the integer promotions and is then
  converted to the \<open>u64\<close> parameter of \<open>base_to_power\<close>, modulo \<open>2 ^ 64\<close>. The two time
  differences are \<open>u64\<close> subtractions.
\<close>

definition acs_survey_interference_factor :: "freq_survey \<Rightarrow> s8 \<Rightarrow> ldouble" where
  "acs_survey_interference_factor survey mnf =
     (let factor = ld_of_u64 (channel_time_busy survey - channel_time_tx survey);
          factor = ld_div factor (ld_of_u64 (channel_time survey - channel_time_tx survey));
          factor = ld_mul factor
                     (ld_of_u64 (base_to_power 2 (word_of_int (sint (nf survey) - sint mnf))));
          factor = ld_log2 factor
      in factor)"

text \<open>The loop of \<open>acs_chan_interference_factor\<close> over the survey list, adding to the
  channel's running \<open>survey_interference_factor\<close>.\<close>

fun acs_sum_surveys :: "s8 \<Rightarrow> freq_survey list \<Rightarrow> ldouble \<Rightarrow> ldouble" where
  "acs_sum_surveys lnf [] acc = acc"
| "acs_sum_surveys lnf (survey # rest) acc =
     acs_sum_surveys lnf rest (ld_add acc (acs_survey_interference_factor survey lnf))"

definition chan_disabled :: "hostapd_channel_data \<Rightarrow> bool" where
  "chan_disabled c \<longleftrightarrow> flag c AND HOSTAPD_CHAN_DISABLED \<noteq> 0"

definition acs_chan_interference_factor ::
    "s8 \<Rightarrow> hostapd_channel_data \<Rightarrow> hostapd_channel_data" where
  "acs_chan_interference_factor lnf c =
     (if survey_list c = [] \<or> chan_disabled c then c
      else c\<lparr>survey_interference_factor :=
               ld_div (acs_sum_surveys lnf (survey_list c) (survey_interference_factor c))
                      (ld_of_nat (survey_count c))\<rparr>)"

definition acs_usable_chan :: "hostapd_channel_data \<Rightarrow> bool" where
  "acs_usable_chan c =
     (if survey_count c = 0 then False
      else if survey_list c = [] then False
      else if chan_disabled c then False
      else True)"

section \<open>Selection\<close>

text \<open>
  \<open>acs_find_ideal_chan\<close>: the loop over the channel array. The pointer \<open>ideal_chan\<close> is
  the index of the channel it points to; the function returns the interface with the
  scores it has written, and the index (\<open>None\<close> for \<open>NULL\<close>).
\<close>

function acs_find_ideal_loop ::
    "hostapd_iface \<Rightarrow> nat \<Rightarrow> nat option \<Rightarrow> hostapd_iface \<times> nat option" where
  "acs_find_ideal_loop s i ideal =
     (if i < length (channels s) then
        (if \<not> acs_usable_chan (channels s ! i) then acs_find_ideal_loop s (i + 1) ideal
         else
           let c = acs_chan_interference_factor (lowest_nf s) (channels s ! i);
               s' = s\<lparr>channels := (channels s)[i := c]\<rparr>
           in (case ideal of
                 None \<Rightarrow> acs_find_ideal_loop s' (i + 1) (Some i)
               | Some k \<Rightarrow>
                   if ld_less (survey_interference_factor c)
                              (survey_interference_factor (channels s' ! k))
                   then acs_find_ideal_loop s' (i + 1) (Some i)
                   else acs_find_ideal_loop s' (i + 1) ideal))
      else (s, ideal))"
  by pat_completeness auto
termination
  by (relation "measure (\<lambda>(s, i, ideal). length (channels s) - i)") auto

declare acs_find_ideal_loop.simps [simp del]

definition acs_find_ideal_chan :: "hostapd_iface \<Rightarrow> hostapd_iface \<times> nat option" where
  "acs_find_ideal_chan s = acs_find_ideal_loop s 0 None"

section \<open>Cleanup\<close>

text \<open>
  \<open>acs_clean_chan_surveys\<close> unlinks and frees every survey of the channel;
  \<open>dl_list_init\<close> leaves the empty list.
\<close>

fun dl_list_del_all :: "freq_survey list \<Rightarrow> freq_survey list" where
  "dl_list_del_all [] = []"
| "dl_list_del_all (survey # rest) = dl_list_del_all rest"

definition acs_clean_chan_surveys :: "hostapd_channel_data \<Rightarrow> hostapd_channel_data" where
  "acs_clean_chan_surveys c =
     (if survey_list c = [] then c
      else c\<lparr>survey_list := dl_list_del_all (survey_list c)\<rparr>)"

definition acs_cleanup_chan :: "hostapd_channel_data \<Rightarrow> hostapd_channel_data" where
  "acs_cleanup_chan c =
     (let c1 = (if survey_count c \<noteq> 0 then acs_clean_chan_surveys c else c)
      in c1\<lparr>survey_list := [], min_nf := 0, survey_count := 0\<rparr>)"

definition acs_cleanup :: "hostapd_iface \<Rightarrow> hostapd_iface" where
  "acs_cleanup s =
     s\<lparr>channels := map acs_cleanup_chan (channels s),
       chans_surveyed := 0,
       off_channel_freq_idx := 0,
       acs_num_completed_surveys := 0\<rparr>"

section \<open>The driver and the controller\<close>

text \<open>
  Modelled from the spec: the driver operations \<open>hostapd_driver_scan\<close>,
  \<open>hostapd_drv_remain_on_channel\<close>, \<open>hostapd_drv_survey_freq\<close> and the bring-up callback
  \<open>hostapd_acs_completed\<close> are outside \<open>acs.c\<close>. They are taken as a parameter: a table
  of operations over a private driver state \<open>'d\<close>, each of them arbitrary. A scan or
  dwell request returns an error code; a survey dump and the bring-up also receive the
  interface and may change it. The world of the controller is the interface, the driver
  state and the history of the dwell requests made so far: each entry is the channel
  whose frequency was passed and the duration.
\<close>

record 'd driver_ops =
  driver_scan :: "'d \<Rightarrow> int \<times> 'd"
  remain_on_channel :: "'d \<Rightarrow> nat \<Rightarrow> nat \<Rightarrow> int \<times> 'd"
  survey_freq :: "'d \<Rightarrow> hostapd_iface \<Rightarrow> nat \<Rightarrow> int \<times> 'd \<times> hostapd_iface"
  acs_completed :: "'d \<Rightarrow> hostapd_iface \<Rightarrow> int \<times> 'd \<times> hostapd_iface"

record 'd acs_world =
  iface :: hostapd_iface
  drv_priv :: 'd
  roc_log :: "(hostapd_channel_data \<times> nat) list"

definition hostapd_driver_scan :: "'d driver_ops \<Rightarrow> 'd acs_world \<Rightarrow> int \<times> 'd acs_world" where
  "hostapd_driver_scan ops w =
     (case driver_scan ops (drv_priv w) of (r, d) \<Rightarrow> (r, w\<lparr>drv_priv := d\<rparr>))"

definition hostapd_drv_remain_on_channel ::
    "'d driver_ops \<Rightarrow> 'd acs_world \<Rightarrow> hostapd_channel_data \<Rightarrow> nat \<Rightarrow> int \<times> 'd acs_world" where
  "hostapd_drv_remain_on_channel ops w c duration =
     (case remain_on_channel ops (drv_priv w) (freq c) duration of
        (r, d) \<Rightarrow> (r, w\<lparr>drv_priv := d, roc_log := roc_log w @ [(c, duration)]\<rparr>))"

definition hostapd_drv_survey_freq ::
    "'d driver_ops \<Rightarrow> 'd acs_world \<Rightarrow> nat \<Rightarrow> int \<times> 'd acs_world" where
  "hostapd_drv_survey_freq ops w f =
     (case survey_freq ops (drv_priv w) (iface w) f of
        (r, d, s) \<Rightarrow> (r, w\<lparr>iface := s, drv_priv := d\<rparr>))"

definition hostapd_acs_completed :: "'d driver_ops \<Rightarrow> 'd acs_world \<Rightarrow> int \<times> 'd acs_world" where
  "hostapd_acs_completed ops w =
     (case acs_completed ops (drv_priv w) (iface w) of
        (r, d, s) \<Rightarrow> (r, w\<lparr>iface := s, drv_priv := d\<rparr>))"

text \<open>
  The handlers return \<open>void\<close>; the model also returns the exit they took: back to the
  event loop to wait for the next driver event, through the bring-up with
  \<open>HOSTAPD_CHAN_VALID\<close>, or through \<open>acs_fail\<close>.
\<close>

datatype acs_exit = ACS_WAIT | ACS_DONE | ACS_FAIL

definition acs_fail :: "'d acs_world \<Rightarrow> acs_exit \<times> 'd acs_world" where
  "acs_fail w = (ACS_FAIL, w\<lparr>iface := acs_cleanup (iface w)\<rparr>)"

subsection \<open>The dwell iterator\<close>

function acs_study_next_loop ::
    "'d driver_ops \<Rightarrow> 'd acs_world \<Rightarrow> nat \<Rightarrow> hostapd_chan_status \<times> 'd acs_world" where
  "acs_study_next_loop ops w i =
     (if i < length (channels (iface w)) then
        (let c = channels (iface w) ! i in
         if chan_disabled c then acs_study_next_loop ops w (i + 1)
         else
           (case hostapd_drv_remain_on_channel ops w c (conf_acs_roc_duration_ms (iface w)) of
              (err, w') \<Rightarrow>
                if err < 0 then (HOSTAPD_CHAN_INVALID, w')
                else (HOSTAPD_CHAN_ACS, w'\<lparr>iface := (iface w')\<lparr>off_channel_freq_idx := i\<rparr>\<rparr>)))
      else if chans_surveyed (iface w) = 0 then (HOSTAPD_CHAN_INVALID, w)
      else (HOSTAPD_CHAN_VALID, w))"
  by pat_completeness auto
termination
  by (relation "measure (\<lambda>(ops, w, i). length (channels (iface w)) - i)") auto

declare acs_study_next_loop.simps [simp del]

definition acs_study_next_freq ::
    "'d driver_ops \<Rightarrow> 'd acs_world \<Rightarrow> hostapd_chan_status \<times> 'd acs_world" where
  "acs_study_next_freq ops w =
     (if off_channel_freq_idx (iface w) > length (channels (iface w))
      then (HOSTAPD_CHAN_INVALID, w)
      else acs_study_next_loop ops w (off_channel_freq_idx (iface w)))"

subsection \<open>End of a pass, decision and hand-off\<close>

text \<open>
  The result of \<open>hostapd_acs_completed\<close> is an \<open>int\<close> switched on the status
  constants; \<open>HOSTAPD_CHAN_VALID\<close> is 0, as the comment before the switch says, and every
  other value takes the failure exit.
\<close>

definition acs_study_complete :: "'d driver_ops \<Rightarrow> 'd acs_world \<Rightarrow> acs_exit \<times> 'd acs_world" where
  "acs_study_complete ops w =
     (let w1 = w\<lparr>iface := (iface w)\<lparr>acs_num_completed_surveys :=
                                        acs_num_completed_surveys (iface w) + 1\<rparr>\<rparr>
      in if acs_num_completed_surveys (iface w1) < conf_acs_num_req_surveys (iface w1) then
           (case acs_study_next_freq ops (w1\<lparr>iface := (iface w1)\<lparr>off_channel_freq_idx := 0\<rparr>\<rparr>) of
              (HOSTAPD_CHAN_ACS, w2) \<Rightarrow> (ACS_WAIT, w2)
            | (HOSTAPD_CHAN_VALID, w2) \<Rightarrow> acs_fail w2
            | (HOSTAPD_CHAN_INVALID, w2) \<Rightarrow> acs_fail w2)
         else if chans_surveyed (iface w1) = 0 then acs_fail w1
         else
           (case acs_find_ideal_chan (iface w1) of
              (s, None) \<Rightarrow> acs_fail (w1\<lparr>iface := s\<rparr>)
            | (s, Some k) \<Rightarrow>
                (case hostapd_acs_completed ops
                        (w1\<lparr>iface := s\<lparr>conf_channel := chan (channels s ! k)\<rparr>\<rparr>) of
                   (r, w2) \<Rightarrow>
                     if r = 0 then (ACS_DONE, w2\<lparr>iface := acs_cleanup (iface w2)\<rparr>)
                     else acs_fail w2)))"

subsection \<open>Driver events\<close>

definition acs_roc_next ::
    "'d driver_ops \<Rightarrow> 'd acs_world \<Rightarrow> nat \<Rightarrow> nat \<Rightarrow> acs_exit \<times> 'd acs_world" where
  "acs_roc_next ops w f duration =
     (case hostapd_drv_survey_freq ops w f of
        (err, w1) \<Rightarrow>
          if err \<noteq> 0 then acs_fail w1
          else
            (case acs_study_next_freq ops
                    (w1\<lparr>iface := (iface w1)\<lparr>off_channel_freq_idx :=
                                               off_channel_freq_idx (iface w1) + 1\<rparr>\<rparr>) of
               (HOSTAPD_CHAN_VALID, w2) \<Rightarrow> acs_study_complete ops w2
             | (HOSTAPD_CHAN_ACS, w2) \<Rightarrow> (ACS_WAIT, w2)
             | (HOSTAPD_CHAN_INVALID, w2) \<Rightarrow> acs_fail w2))"

definition hostapd_notify_acs_roc ::
    "'d driver_ops \<Rightarrow> 'd acs_world \<Rightarrow> nat \<Rightarrow> nat \<Rightarrow> int \<Rightarrow> acs_exit \<times> 'd acs_world" where
  "hostapd_notify_acs_roc ops w f duration roc_status =
     (if roc_status \<noteq> 0 then acs_fail w else (ACS_WAIT, w))"

definition hostapd_notify_acs_roc_cancel ::
    "'d driver_ops \<Rightarrow> 'd acs_world \<Rightarrow> nat \<Rightarrow> nat \<Rightarrow> int \<Rightarrow> acs_exit \<times> 'd acs_world" where
  "hostapd_notify_acs_roc_cancel ops w f duration roc_status =
     (if roc_status \<noteq> 0 then acs_fail w else acs_roc_next ops w f duration)"

definition acs_init_scan_complete ::
    "'d driver_ops \<Rightarrow> 'd acs_world \<Rightarrow> acs_exit \<times> 'd acs_world" where
  "acs_init_scan_complete ops w =
     (let s = (acs_cleanup (iface w))\<lparr>acs_num_completed_surveys := 0\<rparr>
      in case acs_study_next_freq ops (w\<lparr>iface := s\<rparr>) of
           (HOSTAPD_CHAN_ACS, w1) \<Rightarrow> (ACS_WAIT, w1)
         | (HOSTAPD_CHAN_VALID, w1) \<Rightarrow> acs_fail w1
         | (HOSTAPD_CHAN_INVALID, w1) \<Rightarrow> acs_fail w1)"

subsection \<open>Start\<close>

definition acs_init_scan :: "'d driver_ops \<Rightarrow> 'd acs_world \<Rightarrow> int \<times> 'd acs_world" where
  "acs_init_scan ops w =
     (case hostapd_driver_scan ops w of
        (r, w1) \<Rightarrow>
          if r < 0 then (- 1, w1)
          else (1, w1\<lparr>iface := (iface w1)\<lparr>scan_cb := Some Acs_init_scan_complete\<rparr>\<rparr>))"

definition acs_sanity_check :: "hostapd_iface \<Rightarrow> int" where
  "acs_sanity_check s =
     (if chans_surveyed s \<noteq> 0 then - 1
      else if drv_flags s AND WPA_DRIVER_FLAGS_OFFCHANNEL_TX = 0 then - 1
      else 0)"

definition acs_init :: "'d driver_ops \<Rightarrow> 'd acs_world \<Rightarrow> hostapd_chan_status \<times> 'd acs_world" where
  "acs_init ops w =
     (if acs_sanity_check (iface w) < 0 then (HOSTAPD_CHAN_INVALID, w)
      else
        (case acs_init_scan ops w of
           (err, w1) \<Rightarrow>
             if err < 0 then (HOSTAPD_CHAN_INVALID, w1)
             else if err = 1 then (HOSTAPD_CHAN_ACS, w1)
             else (HOSTAPD_CHAN_INVALID, w1)))"

subsection \<open>Executions\<close>

text \<open>
  Modelled from the spec: the event loop that calls into the controller is outside
  \<open>acs.c\<close>. An execution is a sequence of calls: the start, and the driver events in any
  order. The scan completion runs the continuation stored in \<open>scan_cb\<close>, when there is
  one; the two dwell notifications call the hooks of \<open>acs.h\<close>.
\<close>

datatype acs_event =
    Ev_init
  | Ev_scan_complete
  | Ev_roc nat nat int
  | Ev_roc_cancel nat nat int

fun acs_step :: "'d driver_ops \<Rightarrow> 'd acs_world \<Rightarrow> acs_event \<Rightarrow> 'd acs_world" where
  "acs_step ops w Ev_init = snd (acs_init ops w)"
| "acs_step ops w Ev_scan_complete =
     (case scan_cb (iface w) of
        None \<Rightarrow> w
      | Some Acs_init_scan_complete \<Rightarrow> snd (acs_init_scan_complete ops w))"
| "acs_step ops w (Ev_roc f duration roc_status) =
     snd (hostapd_notify_acs_roc ops w f duration roc_status)"
| "acs_step ops w (Ev_roc_cancel f duration roc_status) =
     snd (hostapd_notify_acs_roc_cancel ops w f duration roc_status)"

definition acs_run :: "'d driver_ops \<Rightarrow> 'd acs_world \<Rightarrow> acs_event list \<Rightarrow> 'd acs_world" where
  "acs_run ops w evs = foldl (acs_step ops) w evs"

section \<open>Scoring with rounding\<close>

text \<open>
  The scoring function once more, with the rounding of each floating-point operation
  made explicit: \<open>ld_round\<close> rounds a real to a \<open>long double\<close> (conversions of \<open>u64\<close>,
  the division, the multiplication), \<open>d_round\<close> rounds the \<open>long double\<close> argument of
  \<open>log2\<close> to a \<open>double\<close>, and \<open>libm_log2\<close> is the library's \<open>log2\<close> on doubles, whose
  result converts back exactly. The special values behave as before.
\<close>

record fp_env =
  ld_round :: "real \<Rightarrow> real"
  d_round :: "real \<Rightarrow> real"
  libm_log2 :: "real \<Rightarrow> real"

fun ld_map :: "(real \<Rightarrow> real) \<Rightarrow> ldouble \<Rightarrow> ldouble" where
  "ld_map r (Finite a) = Finite (r a)"
| "ld_map r x = x"

fun ld_log2_fp :: "fp_env \<Rightarrow> ldouble \<Rightarrow> ldouble" where
  "ld_log2_fp env NaN = NaN"
| "ld_log2_fp env MinusInf = NaN"
| "ld_log2_fp env PlusInf = PlusInf"
| "ld_log2_fp env (Finite a) =
     (if a < 0 then NaN else if a = 0 then MinusInf else Finite (libm_log2 env a))"

definition acs_survey_interference_factor_fp :: "fp_env \<Rightarrow> freq_survey \<Rightarrow> s8 \<Rightarrow> ldouble" where
  "acs_survey_interference_factor_fp env survey mnf =
     (let factor = ld_map (ld_round env)
                     (ld_of_u64 (channel_time_busy survey - channel_time_tx survey));
          factor = ld_map (ld_round env)
                     (ld_div factor
                        (ld_map (ld_round env)
                           (ld_of_u64 (channel_time survey - channel_time_tx survey))));
          factor = ld_map (ld_round env)
                     (ld_mul factor
                        (ld_map (ld_round env)
                           (ld_of_u64 (base_to_power 2
                              (word_of_int (sint (nf survey) - sint mnf))))));
          factor = ld_log2_fp env (ld_map (d_round env) factor)
      in factor)"

text \<open>
  Exact arithmetic is one such environment, and with it the function is
  \<open>acs_survey_interference_factor\<close>. An environment is monotone when its roundings and
  its logarithm never reverse an order, round 0 to 0 and keep a positive long double
  positive, as IEEE 754 rounding does on the values this function meets.
\<close>

definition exact_env :: fp_env where
  "exact_env = \<lparr>ld_round = (\<lambda>x. x), d_round = (\<lambda>x. x), libm_log2 = log 2\<rparr>"

definition fp_monotone :: "fp_env \<Rightarrow> bool" where
  "fp_monotone env \<longleftrightarrow>
     (\<forall>x y. x \<le> y \<longrightarrow> ld_round env x \<le> ld_round env y)
     \<and> (\<forall>x y. x \<le> y \<longrightarrow> d_round env x \<le> d_round env y)
     \<and> (\<forall>x y. 0 < x \<and> x \<le> y \<longrightarrow> libm_log2 env x \<le> libm_log2 env y)
     \<and> ld_round env 0 = 0 \<and> d_round env 0 = 0
     \<and> (\<forall>x. 0 < x \<longrightarrow> 0 < ld_round env x)"


text \<open>
  The value passed to \<open>log2\<close> for a numerator \<open>n\<close>, a denominator \<open>m\<close> and an exponent
  \<open>k\<close>: each conversion, the quotient and the product rounded to \<open>long double\<close>, the
  result to \<open>double\<close>.
\<close>

definition fp_factor_arg :: "fp_env \<Rightarrow> nat \<Rightarrow> nat \<Rightarrow> nat \<Rightarrow> real" where
  "fp_factor_arg env n m k =
     d_round env
       (ld_round env
          (ld_round env (ld_round env (real n) / ld_round env (real m))
           * ld_round env (2 ^ k)))"

text \<open>
  IEEE 754 rounding to nearest, ties to even, to a significand of \<open>p\<close> bits (exponent
  range unbounded): 64 bits for the x87 \<open>long double\<close>, 53 for \<open>double\<close>.
\<close>

definition round_even :: "real \<Rightarrow> int" where
  "round_even x =
     (let f = \<lfloor>x\<rfloor>; d = x - of_int f
      in if d < 1 / 2 then f else if 1 / 2 < d then f + 1 else if even f then f else f + 1)"

definition fp_round :: "nat \<Rightarrow> real \<Rightarrow> real" where
  "fp_round p x =
     (if x = 0 then 0
      else let e = \<lfloor>log 2 \<bar>x\<bar>\<rfloor>; u = 2 powr of_int (e - int p + 1)
           in of_int (round_even (x / u)) * u)"


section \<open>Specification vocabulary\<close>

text \<open>
  The invariants of a survey measurement in the data model:
  \<open>channel_time_tx \<le> channel_time_busy \<le> channel_time\<close> and
  \<open>channel_time_tx < channel_time\<close>.
\<close>

definition survey_ok :: "freq_survey \<Rightarrow> bool" where
  "survey_ok s \<longleftrightarrow>
     channel_time_tx s \<le> channel_time_busy s \<and>
     channel_time_busy s \<le> channel_time s \<and>
     channel_time_tx s < channel_time s"

text \<open>
  The scoring formula as the specification writes it,
  \<open>log2 ((busy - tx) / (time - tx) * 2 ^ (nf - nf_ref))\<close>, on the mathematical values
  of the fields. It is compared below with \<open>acs_survey_interference_factor\<close>.
\<close>

definition spec_interference_factor :: "freq_survey \<Rightarrow> s8 \<Rightarrow> ldouble" where
  "spec_interference_factor s nf_ref =
     ld_log2 (Finite
       ((real (unat (channel_time_busy s)) - real (unat (channel_time_tx s)))
        / (real (unat (channel_time s)) - real (unat (channel_time_tx s)))
        * 2 powr real_of_int (sint (nf s) - sint nf_ref)))"

text \<open>
  The aggregate score of a channel as the specification defines it: the arithmetic mean
  of the factors of every measurement in the channel's survey list, the sum divided by
  \<open>survey_count\<close>.
\<close>

definition spec_chan_aggregate :: "s8 \<Rightarrow> hostapd_channel_data \<Rightarrow> ldouble" where
  "spec_chan_aggregate nf_ref c =
     ld_div (foldl ld_add (Finite 0)
               (map (\<lambda>sv. spec_interference_factor sv nf_ref) (survey_list c)))
            (ld_of_nat (survey_count c))"

text \<open>The score \<open>acs_find_ideal_chan\<close> writes to channel \<open>j\<close> and compares.\<close>

definition acs_chan_score :: "hostapd_iface \<Rightarrow> nat \<Rightarrow> ldouble" where
  "acs_chan_score s j =
     survey_interference_factor (acs_chan_interference_factor (lowest_nf s) (channels s ! j))"

definition acs_score_chan :: "s8 \<Rightarrow> hostapd_channel_data \<Rightarrow> hostapd_channel_data" where
  "acs_score_chan lnf c = (if acs_usable_chan c then acs_chan_interference_factor lnf c else c)"

text \<open>
  The loop invariant of \<open>acs_find_ideal_chan\<close> after the channels below \<open>i\<close>: no usable
  channel seen so far is strictly below the ideal one, and none before it has its score.
\<close>

definition ideal_inv :: "hostapd_channel_data list \<Rightarrow> nat \<Rightarrow> nat option \<Rightarrow> bool" where
  "ideal_inv cs i ideal =
     (case ideal of
        None \<Rightarrow> (\<forall>j<i. \<not> acs_usable_chan (cs ! j))
      | Some k \<Rightarrow>
          k < i \<and> acs_usable_chan (cs ! k)
          \<and> (\<forall>j<i. acs_usable_chan (cs ! j) \<longrightarrow>
                 \<not> ld_less (survey_interference_factor (cs ! j))
                            (survey_interference_factor (cs ! k)))
          \<and> (\<forall>j<k. acs_usable_chan (cs ! j) \<longrightarrow>
                 survey_interference_factor (cs ! j) \<noteq> survey_interference_factor (cs ! k)))"

text \<open>The state cleanup establishes: no survey data, and all three counters at zero.\<close>

definition acs_clean :: "hostapd_iface \<Rightarrow> bool" where
  "acs_clean s \<longleftrightarrow>
     (\<forall>c \<in> set (channels s). survey_list c = [] \<and> min_nf c = 0 \<and> survey_count c = 0)
     \<and> chans_surveyed s = 0
     \<and> off_channel_freq_idx s = 0
     \<and> acs_num_completed_surveys s = 0"

definition exit_clean :: "acs_exit \<times> 'd acs_world \<Rightarrow> bool" where
  "exit_clean r \<longleftrightarrow> (fst r \<noteq> ACS_WAIT \<longrightarrow> acs_clean (iface (snd r)))"

definition roc_log_enabled :: "(hostapd_channel_data \<times> nat) list \<Rightarrow> bool" where
  "roc_log_enabled l \<longleftrightarrow> (\<forall>e \<in> set l. \<not> chan_disabled (fst e))"

section \<open>Scenarios\<close>

text \<open>
  A simulated driver for the concrete scenarios. Scans succeed, a dwell request returns
  \<open>roc_err\<close>, the bring-up succeeds, and a survey dump for a frequency appends the
  reported measurements to the channel of that frequency, keeping \<open>survey_count\<close>,
  \<open>min_nf\<close>, \<open>lowest_nf\<close> and \<open>chans_surveyed\<close> as the data model describes them.
\<close>

definition deposit_survey :: "hostapd_channel_data \<Rightarrow> freq_survey \<Rightarrow> hostapd_channel_data" where
  "deposit_survey c sv =
     c\<lparr>survey_list := survey_list c @ [sv],
       survey_count := survey_count c + 1,
       min_nf := (if survey_list c = [] \<or> sint (nf sv) < sint (min_nf c)
                  then nf sv else min_nf c)\<rparr>"

definition sim_survey_freq ::
    "(nat \<Rightarrow> freq_survey list) \<Rightarrow> unit \<Rightarrow> hostapd_iface \<Rightarrow> nat \<Rightarrow> int \<times> unit \<times> hostapd_iface" where
  "sim_survey_freq report d s f =
     (0, d,
      s\<lparr>channels := map (\<lambda>c. if freq c = f then foldl deposit_survey c (report f) else c)
                         (channels s),
        chans_surveyed := chans_surveyed s + (if report f = [] then 0 else 1),
        lowest_nf := foldl (\<lambda>m sv. if sint (nf sv) < sint m then nf sv else m)
                       (if chans_surveyed s = 0 \<and> report f \<noteq> [] then nf (hd (report f))
                        else lowest_nf s)
                       (report f)\<rparr>)"

definition sim_ops :: "(nat \<Rightarrow> freq_survey list) \<Rightarrow> int \<Rightarrow> unit driver_ops" where
  "sim_ops report roc_err =
     \<lparr>driver_scan = (\<lambda>d. (0, d)),
      remain_on_channel = (\<lambda>d f t. (roc_err, d)),
      survey_freq = sim_survey_freq report,
      acs_completed = (\<lambda>d s. (0, d, s))\<rparr>"

definition sim_chan :: "int \<Rightarrow> nat \<Rightarrow> 32 word \<Rightarrow> hostapd_channel_data" where
  "sim_chan n f fl =
     \<lparr>chan = n, freq = f, flag = fl, survey_list = [], min_nf = 0, survey_count = 0,
      survey_interference_factor = Finite 0\<rparr>"

definition sim_iface :: "hostapd_channel_data list \<Rightarrow> hostapd_iface" where
  "sim_iface cs =
     \<lparr>channels = cs, conf_channel = 0, conf_acs_num_req_surveys = 1,
      conf_acs_roc_duration_ms = 100, off_channel_freq_idx = 0, chans_surveyed = 0,
      acs_num_completed_surveys = 0, lowest_nf = 0,
      drv_flags = WPA_DRIVER_FLAGS_OFFCHANNEL_TX, scan_cb = None\<rparr>"

definition sim_world :: "hostapd_channel_data list \<Rightarrow> unit acs_world" where
  "sim_world cs = \<lparr>iface = sim_iface cs, drv_priv = (), roc_log = []\<rparr>"

definition sim_survey :: "u64 \<Rightarrow> u64 \<Rightarrow> freq_survey" where
  "sim_survey t b = \<lparr>nf = - 95, channel_time = t, channel_time_busy = b, channel_time_tx = 0\<rparr>"

text \<open>
  The driver reports one measurement on 2412 MHz (busy an eighth of the time) and two
  on 2437 MHz (busy an eighth and a sixteenth of the time), all at a noise floor of
  -95 dBm.
\<close>

definition sim_report :: "nat \<Rightarrow> freq_survey list" where
  "sim_report f =
     (if f = 2412 then [sim_survey 1000 125]
      else if f = 2437 then [sim_survey 1000 125, sim_survey 1600 100]
      else [])"

text \<open>One complete invocation over the channels 1 and 6: start, scan completion, and a
  dwell with its completion on each frequency.\<close>

definition sim_sweep :: "acs_event list" where
  "sim_sweep =
     [Ev_init, Ev_scan_complete,
      Ev_roc 2412 100 0, Ev_roc_cancel 2412 100 0,
      Ev_roc 2437 100 0, Ev_roc_cancel 2437 100 0]"

definition sim_chans :: "hostapd_channel_data list" where
  "sim_chans = [sim_chan 1 2412 0, sim_chan 6 2437 0]"

text \<open>The interface after both channels have been surveyed, before the decision.\<close>

definition sim_surveyed :: hostapd_iface where
  "sim_surveyed =
     (sim_iface
        [(sim_chan 1 2412 0)\<lparr>survey_list := sim_report 2412, min_nf := - 95, survey_count := 1\<rparr>,
         (sim_chan 6 2437 0)\<lparr>survey_list := sim_report 2437, min_nf := - 95, survey_count := 2\<rparr>])
     \<lparr>chans_surveyed := 2, lowest_nf := - 95\<rparr>"

text \<open>
  The interface at the decision of a second invocation in a row with the same driver:
  the same surveys, and the scores the first invocation left behind.
\<close>

definition sim_resurveyed :: hostapd_iface where
  "sim_resurveyed =
     (sim_iface
        [(sim_chan 1 2412 0)\<lparr>survey_list := sim_report 2412, min_nf := - 95, survey_count := 1,
                               survey_interference_factor := Finite (- 3)\<rparr>,
         (sim_chan 6 2437 0)\<lparr>survey_list := sim_report 2437, min_nf := - 95, survey_count := 2,
                               survey_interference_factor := Finite (- 7 / 2)\<rparr>])
     \<lparr>chans_surveyed := 2, lowest_nf := - 95\<rparr>"


section \<open>Properties of \<open>base_to_power\<close>\<close>

lemma unat_pred_Suc:
  fixes pow :: u64
  assumes "pow \<noteq> 0"
  shows "unat pow = Suc (unat (pow - 1))"
  using assms by (simp add: unat_minus_one unat_gt_0)

lemma base_to_power_loop_eq:
  "base_to_power_loop base pow result = result * base ^ unat pow"
proof (induction base pow result rule: base_to_power_loop.induct)
  case (1 base pow result)
  show ?case
  proof (cases "pow = 0")
    case True
    then show ?thesis by (simp add: base_to_power_loop.simps)
  next
    case False
    have "base_to_power_loop base pow result =
          base_to_power_loop base (pow - 1) (result * base)"
      using False by (subst base_to_power_loop.simps) simp
    also have "\<dots> = result * base * base ^ unat (pow - 1)"
      using 1 False by simp
    finally show ?thesis by (simp add: unat_pred_Suc [OF False] mult.assoc)
  qed
qed

lemma base_to_power_eq: "base_to_power base pow = base ^ unat pow"
proof (cases "pow = 0")
  case True
  then show ?thesis by (simp add: base_to_power_def)
next
  case False
  then show ?thesis
    by (simp add: base_to_power_def base_to_power_loop_eq unat_pred_Suc [OF False])
qed

lemma unat_word_power: "unat ((b::u64) ^ n) = unat b ^ n mod 2 ^ 64"
proof -
  have e: "(word_of_nat (unat b ^ n) :: u64) = b ^ n" by simp
  have "unat (word_of_nat (unat b ^ n) :: u64) = unat b ^ n mod 2 ^ LENGTH(64)"
    by (rule unat_of_nat)
  then show ?thesis unfolding e by simp
qed

text \<open>
  C10. For every 64-bit unsigned \<open>base\<close> and \<open>pow\<close>, \<open>base_to_power base pow\<close> is
  \<open>base ^ pow\<close> modulo \<open>2 ^ 64\<close>; it is 1 at \<open>pow = 0\<close> and \<open>base\<close> at \<open>pow = 1\<close>.
\<close>

theorem base_to_power_mod:
  "unat (base_to_power base pow) = (unat base ^ unat pow) mod 2 ^ 64
   \<and> base_to_power base 0 = 1
   \<and> base_to_power base 1 = base"
  by (simp add: base_to_power_eq unat_word_power)

section \<open>The scoring function\<close>

lemma unat_two_power:
  assumes "n < 64"
  shows "unat ((2::u64) ^ n) = 2 ^ n"
proof -
  have "(2::nat) ^ n < 2 ^ 64"
    by (rule power_strict_increasing) (use assms in simp_all)
  then show ?thesis by (simp add: unat_word_power)
qed

lemma unat_word_of_int_small:
  "0 \<le> d \<Longrightarrow> d < 64 \<Longrightarrow> unat (word_of_int d :: u64) = nat d"
  by (simp add: unat_eq_nat_uint uint_word_of_int take_bit_int_eq_self)

lemma pow_term_exact:
  assumes "0 \<le> d" "d < 64"
  shows "ld_of_u64 (base_to_power 2 (word_of_int d)) = Finite (2 ^ nat d)"
  using assms
  by (simp add: ld_of_u64_def base_to_power_eq unat_word_of_int_small unat_two_power)

lemma ld_factor_shape:
  "0 < (m::nat) \<Longrightarrow>
   ld_log2 (ld_mul (ld_div (Finite (real n)) (Finite (real m))) (Finite (2 ^ k)))
   = ld_log2 (Finite (real n / real m * 2 ^ k))"
  by simp

lemma factor_eval:
  assumes ok: "survey_ok s" and d: "0 \<le> sint (nf s) - sint r" "sint (nf s) - sint r < 64"
  shows "acs_survey_interference_factor s r =
         ld_log2 (Finite (real (unat (channel_time_busy s) - unat (channel_time_tx s))
                          / real (unat (channel_time s) - unat (channel_time_tx s))
                          * 2 ^ nat (sint (nf s) - sint r)))"
proof -
  have n: "unat (channel_time_busy s - channel_time_tx s)
           = unat (channel_time_busy s) - unat (channel_time_tx s)"
    using ok by (simp add: survey_ok_def unat_sub)
  have m: "unat (channel_time s - channel_time_tx s)
           = unat (channel_time s) - unat (channel_time_tx s)"
    using ok by (simp add: survey_ok_def unat_sub order_less_imp_le)
  have p: "0 < unat (channel_time s) - unat (channel_time_tx s)"
    using ok by (simp add: survey_ok_def word_less_nat_alt)
  have pw: "ld_of_u64 (base_to_power 2 (word_of_int (sint (nf s) - sint r)))
            = Finite (2 ^ nat (sint (nf s) - sint r))"
    by (rule pow_term_exact [OF d])
  have num: "ld_of_u64 (channel_time_busy s - channel_time_tx s)
             = Finite (real (unat (channel_time_busy s) - unat (channel_time_tx s)))"
    by (simp only: ld_of_u64_def n)
  have den: "ld_of_u64 (channel_time s - channel_time_tx s)
             = Finite (real (unat (channel_time s) - unat (channel_time_tx s)))"
    by (simp only: ld_of_u64_def m)
  show ?thesis
    unfolding acs_survey_interference_factor_def Let_def pw num den
    by (rule ld_factor_shape [OF p])
qed

lemma spec_factor_eval:
  assumes ok: "survey_ok s" and d: "0 \<le> sint (nf s) - sint r"
  shows "spec_interference_factor s r =
         ld_log2 (Finite (real (unat (channel_time_busy s) - unat (channel_time_tx s))
                          / real (unat (channel_time s) - unat (channel_time_tx s))
                          * 2 ^ nat (sint (nf s) - sint r)))"
proof -
  have a: "unat (channel_time_tx s) \<le> unat (channel_time_busy s)"
    using ok by (simp add: survey_ok_def word_le_nat_alt)
  have b: "unat (channel_time_tx s) \<le> unat (channel_time s)"
    using ok by (simp add: survey_ok_def word_less_nat_alt)
  have p: "(2::real) powr real_of_int (sint (nf s) - sint r) = 2 ^ nat (sint (nf s) - sint r)"
    using d by (simp add: powr_realpow [symmetric])
  show ?thesis
    unfolding spec_interference_factor_def p
    by (simp only: of_nat_diff [OF a] of_nat_diff [OF b])
qed

lemma survey_factor_small_exponent:
  assumes "survey_ok s" and "0 \<le> sint (nf s) - sint r" and "sint (nf s) - sint r < 64"
  shows "acs_survey_interference_factor s r = spec_interference_factor s r"
  using factor_eval [OF assms] spec_factor_eval [OF assms(1,2)] by simp

lemma two_power_overflow:
  assumes "64 \<le> n"
  shows "(2::u64) ^ n = 0"
proof -
  have z: "(2::u64) ^ 64 = 0" by simp
  have "(2::u64) ^ n = 2 ^ (64 + (n - 64))" using assms by simp
  also have "\<dots> = 2 ^ 64 * 2 ^ (n - 64)" by (rule power_add)
  also have "\<dots> = 0" by (simp only: z mult_zero_left)
  finally show ?thesis .
qed

lemma unat_word_of_int_byte:
  assumes "0 \<le> d" "d < 256"
  shows "unat (word_of_int d :: u64) = nat d"
  using assms by (simp add: unat_eq_nat_uint uint_word_of_int take_bit_int_eq_self)

lemma ld_factor_zero_pow:
  "0 < (m::nat) \<Longrightarrow>
   ld_log2 (ld_mul (ld_div (Finite (real n)) (Finite (real m))) (ld_of_u64 0)) = MinusInf"
  by (simp add: ld_of_u64_def)

text \<open>From a noise-floor difference of 64 dB on, the power term is 0 and the factor is
  minus infinity, whatever the measurement.\<close>

lemma survey_factor_large_exponent:
  assumes ok: "survey_ok s" and d: "64 \<le> sint (nf s) - sint r"
  shows "acs_survey_interference_factor s r = MinusInf"
proof -
  have b: "sint (nf s) - sint r < 256"
    using sint_range_size [of "nf s"] sint_range_size [of r] by (simp add: word_size)
  have u: "unat (word_of_int (sint (nf s) - sint r) :: u64) = nat (sint (nf s) - sint r)"
    using d b by (intro unat_word_of_int_byte) simp_all
  have pw: "base_to_power 2 (word_of_int (sint (nf s) - sint r)) = 0"
    unfolding base_to_power_eq u using d by (intro two_power_overflow) simp
  have n: "unat (channel_time_busy s - channel_time_tx s)
           = unat (channel_time_busy s) - unat (channel_time_tx s)"
    using ok by (simp add: survey_ok_def unat_sub)
  have m: "unat (channel_time s - channel_time_tx s)
           = unat (channel_time s) - unat (channel_time_tx s)"
    using ok by (simp add: survey_ok_def unat_sub order_less_imp_le)
  have p: "0 < unat (channel_time s) - unat (channel_time_tx s)"
    using ok by (simp add: survey_ok_def word_less_nat_alt)
  have num: "ld_of_u64 (channel_time_busy s - channel_time_tx s)
             = Finite (real (unat (channel_time_busy s) - unat (channel_time_tx s)))"
    by (simp only: ld_of_u64_def n)
  have den: "ld_of_u64 (channel_time s - channel_time_tx s)
             = Finite (real (unat (channel_time s) - unat (channel_time_tx s)))"
    by (simp only: ld_of_u64_def m)
  show ?thesis
    unfolding acs_survey_interference_factor_def Let_def pw num den
    by (rule ld_factor_zero_pow [OF p])
qed

text \<open>
  C3. For every survey measurement satisfying the data-model invariants and every
  reference noise floor not above the measured one, the interference factor is
  \<open>log2 ((busy - tx) / (time - tx) * 2 ^ (nf - nf_ref))\<close>, the power of two being
  exact. The code computes the power in 64 bits: from a difference of 64 dB on it is 0,
  and the factor is minus infinity. At \<open>nf = 0\<close> against a reference of -95 dBm the
  power term is 0, the code returns minus infinity and the formula does not.
\<close>

theorem survey_factor_overflow:
  "survey_ok \<lparr>nf = 0, channel_time = 1000, channel_time_busy = 100, channel_time_tx = 0\<rparr>
   \<and> sint (- 95 :: s8) \<le> sint (0 :: s8)
   \<and> base_to_power 2 (word_of_int (sint (0 :: s8) - sint (- 95 :: s8))) = 0
   \<and> acs_survey_interference_factor
        \<lparr>nf = 0, channel_time = 1000, channel_time_busy = 100, channel_time_tx = 0\<rparr> (- 95)
        = MinusInf
   \<and> spec_interference_factor
        \<lparr>nf = 0, channel_time = 1000, channel_time_busy = 100, channel_time_tx = 0\<rparr> (- 95)
        \<noteq> MinusInf"
  by (simp add: survey_ok_def acs_survey_interference_factor_def Let_def base_to_power_eq
      ld_of_u64_def spec_interference_factor_def)

subsection \<open>Monotonicity\<close>

lemma exact_env_factor:
  "acs_survey_interference_factor_fp exact_env s r = acs_survey_interference_factor s r"
proof -
  have m: "ld_map (\<lambda>x. x) v = v" for v by (cases v) simp_all
  have l: "ld_log2_fp exact_env v = ld_log2 v" for v
    by (cases v) (simp_all add: exact_env_def)
  show ?thesis
    by (simp add: acs_survey_interference_factor_fp_def acs_survey_interference_factor_def
        Let_def l) (simp add: exact_env_def m)
qed

lemma round_even_of_int: "round_even (of_int n) = n"
  by (simp add: round_even_def)



lemma fp_round_nat:
  assumes "0 < n" "n < 2 ^ p"
  shows "fp_round p (real n) = real n"
proof -
  define e where "e = \<lfloor>log 2 (real n)\<rfloor>"
  have n1: "1 \<le> real n" using assms by simp
  have "0 \<le> log 2 (real n)" using n1 by simp
  then have e0: "0 \<le> e" by (simp add: e_def)
  have "log 2 (real n) < log 2 (2 ^ p)"
    using assms by (subst log_less_cancel_iff) (simp_all flip: of_nat_power add: of_nat_less_iff)
  then have "log 2 (real n) < real p" by simp
  then have ep: "e < int p" by (simp add: e_def floor_less_iff)
  define k where "k = nat (int p - 1 - e)"
  have ke: "e - int p + 1 = - int k" using ep by (simp add: k_def)
  have u: "(2::real) powr of_int (e - int p + 1) = 1 / 2 ^ k"
  proof -
    have "(2::real) powr of_int (e - int p + 1) = 2 powr (- real k)" by (simp add: ke)
    also have "\<dots> = 1 / 2 powr real k" by (simp add: powr_minus divide_inverse)
    also have "\<dots> = 1 / 2 ^ k" by (simp add: powr_realpow)
    finally show ?thesis .
  qed
  have q: "real n / (1 / 2 ^ k) = of_int (int (n * 2 ^ k))" by simp
  have nz: "real n \<noteq> 0" using assms by simp
  have ab: "\<bar>real n\<bar> = real n" by simp
  have "fp_round p (real n) =
        of_int (round_even (real n / 2 powr of_int (e - int p + 1)))
        * 2 powr of_int (e - int p + 1)"
    unfolding fp_round_def Let_def ab e_def by (simp only: nz if_False)
  also have "\<dots> = of_int (round_even (real n / (1 / 2 ^ k))) * (1 / 2 ^ k)"
    unfolding u ..
  also have "\<dots> = of_int (int (n * 2 ^ k)) * (1 / 2 ^ k)"
    unfolding q round_even_of_int ..
  also have "\<dots> = real n" by simp
  finally show ?thesis .
qed

lemma fp_round_u64:
  assumes "w \<noteq> 0"
  shows "fp_round 64 (real (unat (w::u64))) = real (unat w)"
proof -
  have "unat w < 2 ^ 64" using unsigned_less [of w, where 'a = nat] by simp
  moreover have "0 < unat w" using assms by (simp add: unat_gt_0)
  ultimately show ?thesis by (rule fp_round_nat [rotated])
qed






lemma fp_factor_arg_idle:
  assumes "fp_monotone env"
  shows "fp_factor_arg env 0 m k = 0"
  using assms by (simp add: fp_factor_arg_def fp_monotone_def)




















section \<open>Evaluation of the scenarios\<close>

lemma log2_8: "log 2 8 = (3::real)"
  using log_pow_cancel [of 2 3] by simp

lemma log2_16: "log 2 16 = (4::real)"
  using log_pow_cancel [of 2 4] by simp

lemma sim_factor_eighth:
  "acs_survey_interference_factor (sim_survey 1000 125) (- 95) = Finite (- 3)"
  by (simp add: acs_survey_interference_factor_def sim_survey_def Let_def ld_of_u64_def
      base_to_power_def log_divide log2_8)

lemma sim_factor_sixteenth:
  "acs_survey_interference_factor (sim_survey 1600 100) (- 95) = Finite (- 4)"
  by (simp add: acs_survey_interference_factor_def sim_survey_def Let_def ld_of_u64_def
      base_to_power_def log_divide log2_16)

lemma nf_sim_survey: "nf (sim_survey t b) = - 95"
  by (simp add: sim_survey_def)

lemmas sim_defs = nf_sim_survey ld_of_nat_def sim_ops_def sim_world_def sim_iface_def
  sim_chan_def sim_chans_def sim_report_def sim_sweep_def sim_survey_freq_def
  deposit_survey_def sim_factor_eighth sim_factor_sixteenth

lemmas ctl_defs = acs_run_def acs_init_def acs_sanity_check_def acs_init_scan_def
  hostapd_driver_scan_def hostapd_drv_remain_on_channel_def hostapd_drv_survey_freq_def
  hostapd_acs_completed_def acs_fail_def acs_study_next_freq_def acs_study_complete_def
  acs_roc_next_def hostapd_notify_acs_roc_def hostapd_notify_acs_roc_cancel_def
  acs_init_scan_complete_def acs_cleanup_def acs_cleanup_chan_def acs_clean_chan_surveys_def
  acs_find_ideal_chan_def acs_usable_chan_def acs_chan_interference_factor_def chan_disabled_def
  HOSTAPD_CHAN_DISABLED_def WPA_DRIVER_FLAGS_OFFCHANNEL_TX_def Let_def
  acs_study_next_loop.simps acs_find_ideal_loop.simps

section \<open>Cleanup\<close>

lemma acs_cleanup_chan_eq:
  "acs_cleanup_chan c = c\<lparr>survey_list := [], min_nf := 0, survey_count := 0\<rparr>"
  by (simp add: acs_cleanup_chan_def acs_clean_chan_surveys_def Let_def)

lemma acs_cleanup_clean: "acs_clean (acs_cleanup s)"
  by (simp add: acs_clean_def acs_cleanup_def acs_cleanup_chan_eq)

lemma acs_cleanup_idem: "acs_cleanup (acs_cleanup s) = acs_cleanup s"
  by (simp add: acs_cleanup_def acs_cleanup_chan_eq comp_def)

lemma exit_clean_fail: "exit_clean (acs_fail w)"
  by (simp add: exit_clean_def acs_fail_def acs_cleanup_clean)

lemma exit_clean_wait: "exit_clean (ACS_WAIT, w)"
  by (simp add: exit_clean_def)

lemma exit_clean_done: "exit_clean (e, w\<lparr>iface := acs_cleanup s\<rparr>)"
  by (simp add: exit_clean_def acs_cleanup_clean)

lemma acs_study_complete_clean: "exit_clean (acs_study_complete ops w)"
  by (simp add: acs_study_complete_def Let_def exit_clean_fail exit_clean_wait exit_clean_done
      split: prod.splits hostapd_chan_status.splits option.splits)

lemma acs_roc_next_clean: "exit_clean (acs_roc_next ops w f d)"
  by (simp add: acs_roc_next_def exit_clean_fail exit_clean_wait acs_study_complete_clean
      split: prod.splits hostapd_chan_status.splits)

lemma notify_roc_clean: "exit_clean (hostapd_notify_acs_roc ops w f d st)"
  by (simp add: hostapd_notify_acs_roc_def exit_clean_fail exit_clean_wait)

lemma notify_roc_cancel_clean: "exit_clean (hostapd_notify_acs_roc_cancel ops w f d st)"
  by (simp add: hostapd_notify_acs_roc_cancel_def exit_clean_fail acs_roc_next_clean)

lemma init_scan_complete_clean: "exit_clean (acs_init_scan_complete ops w)"
  by (simp add: acs_init_scan_complete_def Let_def exit_clean_fail exit_clean_wait
      split: prod.splits hostapd_chan_status.splits)

text \<open>
  C8. After every terminal exit of the controller, the success exit (the bring-up
  returned \<open>HOSTAPD_CHAN_VALID\<close>) and every exit through \<open>acs_fail\<close>, each channel's
  survey list is empty, its \<open>min_nf\<close> and \<open>survey_count\<close> are zero, and
  \<open>chans_surveyed\<close>, \<open>off_channel_freq_idx\<close> and \<open>acs_num_completed_surveys\<close> are zero;
  cleanup is idempotent.
\<close>

theorem terminal_exits_clean:
  "fst (acs_fail w) = ACS_FAIL
   \<and> exit_clean (acs_fail w)
   \<and> exit_clean (acs_study_complete ops w)
   \<and> exit_clean (acs_roc_next ops w f d)
   \<and> exit_clean (hostapd_notify_acs_roc ops w f d st)
   \<and> exit_clean (hostapd_notify_acs_roc_cancel ops w f d st)
   \<and> exit_clean (acs_init_scan_complete ops w)
   \<and> acs_clean (acs_cleanup s)
   \<and> acs_cleanup (acs_cleanup s) = acs_cleanup s"
  by (simp add: exit_clean_fail acs_study_complete_clean acs_roc_next_clean notify_roc_clean
      notify_roc_cancel_clean init_scan_complete_clean acs_cleanup_clean acs_cleanup_idem)
     (simp add: acs_fail_def)

theorem terminal_exits_clean_witness:
  "fst (hostapd_notify_acs_roc (sim_ops sim_report 0)
          (acs_run (sim_ops sim_report 0) (sim_world sim_chans) (take 5 sim_sweep))
          2437 100 1) = ACS_FAIL
   \<and> acs_clean (iface (snd (hostapd_notify_acs_roc (sim_ops sim_report 0)
          (acs_run (sim_ops sim_report 0) (sim_world sim_chans) (take 5 sim_sweep))
          2437 100 1)))
   \<and> fst (hostapd_notify_acs_roc_cancel (sim_ops sim_report 0)
          (acs_run (sim_ops sim_report 0) (sim_world sim_chans) (take 5 sim_sweep))
          2437 100 0) = ACS_DONE
   \<and> acs_clean (iface (snd (hostapd_notify_acs_roc_cancel (sim_ops sim_report 0)
          (acs_run (sim_ops sim_report 0) (sim_world sim_chans) (take 5 sim_sweep))
          2437 100 0)))"
proof -
  let ?ops = "sim_ops sim_report 0"
  let ?w = "acs_run ?ops (sim_world sim_chans) (take 5 sim_sweep)"
  have a: "fst (hostapd_notify_acs_roc ?ops ?w 2437 100 1) = ACS_FAIL"
    by (simp add: hostapd_notify_acs_roc_def acs_fail_def)
  have b: "fst (hostapd_notify_acs_roc_cancel ?ops ?w 2437 100 0) = ACS_DONE"
    by (simp add: sim_defs ctl_defs)
  show ?thesis
    using terminal_exits_clean [of ?w ?ops 2437 100 1]
          terminal_exits_clean [of ?w ?ops 2437 100 0] a b
    by (simp add: exit_clean_def)
qed

text \<open>
  C9. \<open>acs_cleanup\<close> changes only the \<open>survey_list\<close>, \<open>min_nf\<close> and \<open>survey_count\<close> of each
  channel and the interface fields \<open>chans_surveyed\<close>, \<open>off_channel_freq_idx\<close> and
  \<open>acs_num_completed_surveys\<close>; every channel's \<open>survey_interference_factor\<close>, the
  interface's \<open>lowest_nf\<close> and \<open>conf.channel\<close> are as before.
\<close>

theorem cleanup_frame:
  "acs_cleanup s =
     s\<lparr>channels := map (\<lambda>c. c\<lparr>survey_list := [], min_nf := 0, survey_count := 0\<rparr>) (channels s),
       chans_surveyed := 0, off_channel_freq_idx := 0, acs_num_completed_surveys := 0\<rparr>
   \<and> map survey_interference_factor (channels (acs_cleanup s))
       = map survey_interference_factor (channels s)
   \<and> lowest_nf (acs_cleanup s) = lowest_nf s
   \<and> conf_channel (acs_cleanup s) = conf_channel s"
  by (simp add: acs_cleanup_def acs_cleanup_chan_eq comp_def)

section \<open>Start of the engine\<close>

text \<open>
  C5, as amended. \<open>acs_init\<close> returns \<open>HOSTAPD_CHAN_INVALID\<close> exactly when
  \<open>chans_surveyed\<close> is not zero, or the driver lacks the off-channel TX capability, or
  the initial scan request is refused; it returns \<open>HOSTAPD_CHAN_ACS\<close> in every other
  case, and never \<open>HOSTAPD_CHAN_VALID\<close>.
\<close>

theorem acs_init_status:
  "fst (acs_init ops w) =
     (if 0 < chans_surveyed (iface w)
         \<or> drv_flags (iface w) AND WPA_DRIVER_FLAGS_OFFCHANNEL_TX = 0
         \<or> fst (driver_scan ops (drv_priv w)) < 0
      then HOSTAPD_CHAN_INVALID else HOSTAPD_CHAN_ACS)
   \<and> fst (acs_init ops w) \<noteq> HOSTAPD_CHAN_VALID"
  by (simp add: acs_init_def acs_sanity_check_def acs_init_scan_def hostapd_driver_scan_def
      split: prod.splits)

theorem acs_init_status_witness:
  "fst (acs_init (sim_ops sim_report 0) (sim_world sim_chans)) = HOSTAPD_CHAN_ACS"
  using acs_init_status [of "sim_ops sim_report 0" "sim_world sim_chans"]
  by (simp add: sim_ops_def sim_world_def sim_iface_def WPA_DRIVER_FLAGS_OFFCHANNEL_TX_def)

text \<open>
  The claim as stated fails when \<open>chans_surveyed\<close> is not zero at the start: the driver
  has the capability and accepts the scan, and \<open>acs_init\<close> returns
  \<open>HOSTAPD_CHAN_INVALID\<close>.
\<close>

theorem acs_init_stale_count:
  "drv_flags (iface ((sim_world sim_chans)\<lparr>iface := (sim_iface sim_chans)\<lparr>chans_surveyed := 1\<rparr>\<rparr>))
     AND WPA_DRIVER_FLAGS_OFFCHANNEL_TX \<noteq> 0
   \<and> 0 \<le> fst (driver_scan (sim_ops sim_report 0)
               (drv_priv ((sim_world sim_chans)\<lparr>iface := (sim_iface sim_chans)\<lparr>chans_surveyed := 1\<rparr>\<rparr>)))
   \<and> fst (acs_init (sim_ops sim_report 0)
            ((sim_world sim_chans)\<lparr>iface := (sim_iface sim_chans)\<lparr>chans_surveyed := 1\<rparr>\<rparr>))
       = HOSTAPD_CHAN_INVALID"
  by (simp add: sim_defs ctl_defs)

section \<open>The dwell iterator\<close>

lemma study_loop_skip:
  assumes "\<forall>j. i \<le> j \<and> j < k \<longrightarrow> chan_disabled (channels (iface w) ! j)"
    and "i \<le> k" and "k \<le> length (channels (iface w))"
  shows "acs_study_next_loop ops w i = acs_study_next_loop ops w k"
  using assms
proof (induction "k - i" arbitrary: i)
  case 0
  then show ?case by simp
next
  case (Suc m)
  then have lt: "i < k" by simp
  have dis: "chan_disabled (channels (iface w) ! i)" using Suc.prems lt by simp
  have "acs_study_next_loop ops w i = acs_study_next_loop ops w (i + 1)"
    using lt Suc.prems dis by (subst acs_study_next_loop.simps) (simp add: Let_def)
  also have "\<dots> = acs_study_next_loop ops w k"
    using Suc.hyps Suc.prems lt by (intro Suc.hyps(1)) auto
  finally show ?case .
qed

lemma study_loop_end:
  "acs_study_next_loop ops w (length (channels (iface w))) =
     (if chans_surveyed (iface w) = 0 then (HOSTAPD_CHAN_INVALID, w) else (HOSTAPD_CHAN_VALID, w))"
  by (subst acs_study_next_loop.simps) simp

lemma study_loop_hit:
  assumes "k < length (channels (iface w))" and "\<not> chan_disabled (channels (iface w) ! k)"
  shows "acs_study_next_loop ops w k =
     (case remain_on_channel ops (drv_priv w) (freq (channels (iface w) ! k))
             (conf_acs_roc_duration_ms (iface w)) of
        (err, d) \<Rightarrow>
          if err < 0 then
            (HOSTAPD_CHAN_INVALID,
             w\<lparr>drv_priv := d,
               roc_log := roc_log w @ [(channels (iface w) ! k, conf_acs_roc_duration_ms (iface w))]\<rparr>)
          else
            (HOSTAPD_CHAN_ACS,
             w\<lparr>drv_priv := d,
               roc_log := roc_log w @ [(channels (iface w) ! k, conf_acs_roc_duration_ms (iface w))],
               iface := (iface w)\<lparr>off_channel_freq_idx := k\<rparr>\<rparr>))"
  using assms
  by (subst acs_study_next_loop.simps)
     (simp add: Let_def hostapd_drv_remain_on_channel_def split: prod.splits)


text \<open>
  C4, as amended. \<open>acs_study_next_freq\<close>, from the cursor \<open>off_channel_freq_idx\<close>: if the
  cursor exceeds the channel count it returns \<open>INVALID\<close>; otherwise it finds the first
  channel at or after the cursor that is not disabled and requests a dwell of
  \<open>acs_roc_duration_ms\<close> on its frequency; if the driver accepts the request it leaves
  the cursor at that channel's index and returns \<open>ACS\<close>; if the driver refuses it (a
  negative result) it returns \<open>INVALID\<close> and leaves the cursor as it was; if no enabled
  channel remains it returns \<open>VALID\<close> when \<open>chans_surveyed > 0\<close> and \<open>INVALID\<close> otherwise.
\<close>

theorem acs_study_next_freq_cases:
  "(length (channels (iface w)) < off_channel_freq_idx (iface w) \<longrightarrow>
      acs_study_next_freq ops w = (HOSTAPD_CHAN_INVALID, w))
   \<and> (off_channel_freq_idx (iface w) \<le> k \<and> k < length (channels (iface w))
       \<and> \<not> chan_disabled (channels (iface w) ! k)
       \<and> (\<forall>j. off_channel_freq_idx (iface w) \<le> j \<and> j < k \<longrightarrow>
              chan_disabled (channels (iface w) ! j)) \<longrightarrow>
      acs_study_next_freq ops w =
        (case remain_on_channel ops (drv_priv w) (freq (channels (iface w) ! k))
                (conf_acs_roc_duration_ms (iface w)) of
           (err, d) \<Rightarrow>
             if err < 0 then
               (HOSTAPD_CHAN_INVALID,
                w\<lparr>drv_priv := d,
                  roc_log := roc_log w
                    @ [(channels (iface w) ! k, conf_acs_roc_duration_ms (iface w))]\<rparr>)
             else
               (HOSTAPD_CHAN_ACS,
                w\<lparr>drv_priv := d,
                  roc_log := roc_log w
                    @ [(channels (iface w) ! k, conf_acs_roc_duration_ms (iface w))],
                  iface := (iface w)\<lparr>off_channel_freq_idx := k\<rparr>\<rparr>)))
   \<and> (off_channel_freq_idx (iface w) \<le> length (channels (iface w))
       \<and> (\<forall>j. off_channel_freq_idx (iface w) \<le> j \<and> j < length (channels (iface w)) \<longrightarrow>
              chan_disabled (channels (iface w) ! j)) \<longrightarrow>
      acs_study_next_freq ops w =
        (if chans_surveyed (iface w) = 0 then (HOSTAPD_CHAN_INVALID, w)
         else (HOSTAPD_CHAN_VALID, w)))"
proof (intro conjI impI)
  assume "length (channels (iface w)) < off_channel_freq_idx (iface w)"
  then show "acs_study_next_freq ops w = (HOSTAPD_CHAN_INVALID, w)"
    by (simp add: acs_study_next_freq_def)
next
  assume a: "off_channel_freq_idx (iface w) \<le> k \<and> k < length (channels (iface w))
       \<and> \<not> chan_disabled (channels (iface w) ! k)
       \<and> (\<forall>j. off_channel_freq_idx (iface w) \<le> j \<and> j < k \<longrightarrow>
              chan_disabled (channels (iface w) ! j))"
  then have "acs_study_next_freq ops w = acs_study_next_loop ops w k"
    using study_loop_skip [of "off_channel_freq_idx (iface w)" k w ops]
    by (simp add: acs_study_next_freq_def)
  then show "acs_study_next_freq ops w =
        (case remain_on_channel ops (drv_priv w) (freq (channels (iface w) ! k))
                (conf_acs_roc_duration_ms (iface w)) of
           (err, d) \<Rightarrow>
             if err < 0 then
               (HOSTAPD_CHAN_INVALID,
                w\<lparr>drv_priv := d,
                  roc_log := roc_log w
                    @ [(channels (iface w) ! k, conf_acs_roc_duration_ms (iface w))]\<rparr>)
             else
               (HOSTAPD_CHAN_ACS,
                w\<lparr>drv_priv := d,
                  roc_log := roc_log w
                    @ [(channels (iface w) ! k, conf_acs_roc_duration_ms (iface w))],
                  iface := (iface w)\<lparr>off_channel_freq_idx := k\<rparr>\<rparr>))"
    using a study_loop_hit [of k w ops] by simp
next
  assume a: "off_channel_freq_idx (iface w) \<le> length (channels (iface w))
       \<and> (\<forall>j. off_channel_freq_idx (iface w) \<le> j \<and> j < length (channels (iface w)) \<longrightarrow>
              chan_disabled (channels (iface w) ! j))"
  then have "acs_study_next_freq ops w
             = acs_study_next_loop ops w (length (channels (iface w)))"
    using study_loop_skip [of "off_channel_freq_idx (iface w)" "length (channels (iface w))" w ops]
    by (simp add: acs_study_next_freq_def)
  then show "acs_study_next_freq ops w =
        (if chans_surveyed (iface w) = 0 then (HOSTAPD_CHAN_INVALID, w)
         else (HOSTAPD_CHAN_VALID, w))"
    by (simp add: study_loop_end)
qed

theorem acs_study_next_freq_cases_witness:
  "fst (acs_study_next_freq (sim_ops sim_report 0)
          ((sim_world sim_chans)\<lparr>iface := (sim_iface sim_chans)\<lparr>off_channel_freq_idx := 3\<rparr>\<rparr>))
     = HOSTAPD_CHAN_INVALID
   \<and> acs_study_next_freq (sim_ops sim_report 0)
        (sim_world [sim_chan 1 2412 1, sim_chan 6 2437 0])
     = (HOSTAPD_CHAN_ACS,
        (sim_world [sim_chan 1 2412 1, sim_chan 6 2437 0])
          \<lparr>roc_log := [(sim_chan 6 2437 0, 100)],
           iface := (sim_iface [sim_chan 1 2412 1, sim_chan 6 2437 0])\<lparr>off_channel_freq_idx := 1\<rparr>\<rparr>)
   \<and> acs_study_next_freq (sim_ops sim_report 0) (sim_world [sim_chan 1 2412 1])
     = (HOSTAPD_CHAN_INVALID, sim_world [sim_chan 1 2412 1])"
  using acs_study_next_freq_cases
          [of "(sim_world sim_chans)\<lparr>iface := (sim_iface sim_chans)\<lparr>off_channel_freq_idx := 3\<rparr>\<rparr>"
              "sim_ops sim_report 0" 0]
        acs_study_next_freq_cases
          [of "sim_world [sim_chan 1 2412 1, sim_chan 6 2437 0]" "sim_ops sim_report 0" 1]
        acs_study_next_freq_cases
          [of "sim_world [sim_chan 1 2412 1]" "sim_ops sim_report 0" 0]
  by (simp add: sim_ops_def sim_world_def sim_iface_def sim_chan_def sim_chans_def
      chan_disabled_def HOSTAPD_CHAN_DISABLED_def)

text \<open>
  The claim as stated fails when the driver refuses the dwell: channel 1 is disabled,
  channel 6 is the first enabled one, and \<open>acs_study_next_freq\<close> returns \<open>INVALID\<close> with
  the cursor still at 0.
\<close>

theorem study_next_freq_refused:
  "off_channel_freq_idx (iface (sim_world [sim_chan 1 2412 1, sim_chan 6 2437 0]))
     \<le> length (channels (iface (sim_world [sim_chan 1 2412 1, sim_chan 6 2437 0])))
   \<and> chan_disabled (channels (iface (sim_world [sim_chan 1 2412 1, sim_chan 6 2437 0])) ! 0)
   \<and> \<not> chan_disabled (channels (iface (sim_world [sim_chan 1 2412 1, sim_chan 6 2437 0])) ! 1)
   \<and> fst (acs_study_next_freq (sim_ops sim_report (- 1))
            (sim_world [sim_chan 1 2412 1, sim_chan 6 2437 0])) = HOSTAPD_CHAN_INVALID
   \<and> off_channel_freq_idx (iface (snd (acs_study_next_freq (sim_ops sim_report (- 1))
            (sim_world [sim_chan 1 2412 1, sim_chan 6 2437 0])))) = 0"
  by (simp add: sim_defs ctl_defs)

section \<open>Selection\<close>

lemma ld_less_irrefl: "\<not> ld_less x x"
  by (cases x) simp_all

lemma ld_less_trans: "ld_less x y \<Longrightarrow> ld_less y z \<Longrightarrow> ld_less x z"
  by (cases x; cases y; cases z) simp_all

lemma usable_after_factor:
  "acs_usable_chan (acs_chan_interference_factor lnf c) = acs_usable_chan c"
  by (simp add: acs_usable_chan_def acs_chan_interference_factor_def chan_disabled_def)

lemma ideal_inv_skip:
  "ideal_inv cs i ideal \<Longrightarrow> \<not> acs_usable_chan (cs ! i) \<Longrightarrow> ideal_inv cs (Suc i) ideal"
  by (auto simp: ideal_inv_def less_Suc_eq split: option.splits)

lemma ideal_inv_first:
  assumes "ideal_inv cs i None" "i < length cs" "acs_usable_chan c"
  shows "ideal_inv (cs[i := c]) (Suc i) (Some i)"
  using assms by (auto simp: ideal_inv_def less_Suc_eq ld_less_irrefl)

lemma ideal_inv_better:
  assumes inv: "ideal_inv cs i (Some k)" and i: "i < length cs" and u: "acs_usable_chan c"
    and lt: "ld_less (survey_interference_factor c) (survey_interference_factor (cs[i := c] ! k))"
  shows "ideal_inv (cs[i := c]) (Suc i) (Some i)"
proof -
  have k: "k < i" using inv by (simp add: ideal_inv_def)
  then have lt': "ld_less (survey_interference_factor c) (survey_interference_factor (cs ! k))"
    using lt by simp
  have a: "\<not> ld_less (survey_interference_factor (cs ! j)) (survey_interference_factor c)"
    if "j < i" "acs_usable_chan (cs ! j)" for j
  proof
    assume "ld_less (survey_interference_factor (cs ! j)) (survey_interference_factor c)"
    then have "ld_less (survey_interference_factor (cs ! j)) (survey_interference_factor (cs ! k))"
      using lt' by (rule ld_less_trans)
    then show False using inv that by (simp add: ideal_inv_def)
  qed
  have b: "survey_interference_factor (cs ! j) \<noteq> survey_interference_factor c"
    if "j < i" "acs_usable_chan (cs ! j)" for j
  proof
    assume "survey_interference_factor (cs ! j) = survey_interference_factor c"
    then have "ld_less (survey_interference_factor (cs ! j)) (survey_interference_factor (cs ! k))"
      using lt' by simp
    then show False using inv that by (simp add: ideal_inv_def)
  qed
  show ?thesis
    using i u a b by (auto simp: ideal_inv_def less_Suc_eq ld_less_irrefl)
qed

lemma ideal_inv_keep:
  assumes inv: "ideal_inv cs i (Some k)" and i: "i < length cs" and u: "acs_usable_chan c"
    and nlt: "\<not> ld_less (survey_interference_factor c) (survey_interference_factor (cs[i := c] ! k))"
  shows "ideal_inv (cs[i := c]) (Suc i) (Some k)"
proof -
  have k: "k < i" using inv by (simp add: ideal_inv_def)
  show ?thesis
    using inv i u nlt k by (auto simp: ideal_inv_def less_Suc_eq)
qed

lemma find_ideal_loop_inv:
  assumes "ideal_inv (channels s) i ideal" and "i \<le> length (channels s)"
  shows "ideal_inv (channels (fst (acs_find_ideal_loop s i ideal))) (length (channels s))
                   (snd (acs_find_ideal_loop s i ideal))
         \<and> length (channels (fst (acs_find_ideal_loop s i ideal))) = length (channels s)"
  using assms
proof (induction "length (channels s) - i" arbitrary: s i ideal)
  case 0
  then have "i = length (channels s)" by simp
  then show ?case using "0.prems" by (subst (1 2 3) acs_find_ideal_loop.simps) simp
next
  case (Suc m)
  then have lt: "i < length (channels s)" by simp
  let ?c = "acs_chan_interference_factor (lowest_nf s) (channels s ! i)"
  let ?s' = "s\<lparr>channels := (channels s)[i := ?c]\<rparr>"
  show ?case
  proof (cases "acs_usable_chan (channels s ! i)")
    case False
    have e: "acs_find_ideal_loop s i ideal = acs_find_ideal_loop s (i + 1) ideal"
      using lt False by (subst acs_find_ideal_loop.simps) simp
    have "ideal_inv (channels s) (i + 1) ideal"
      using ideal_inv_skip [OF Suc.prems(1) False] by simp
    then show ?thesis
      unfolding e using Suc.hyps(1) [of s "i + 1" ideal] Suc.hyps(2) lt by simp
  next
    case True
    then have u: "acs_usable_chan ?c" by (simp add: usable_after_factor)
    obtain ideal' where
      e: "acs_find_ideal_loop s i ideal = acs_find_ideal_loop ?s' (i + 1) ideal'"
      and inv': "ideal_inv (channels ?s') (i + 1) ideal'"
    proof (cases ideal)
      case None
      have "acs_find_ideal_loop s i ideal = acs_find_ideal_loop ?s' (i + 1) (Some i)"
        using lt True None by (subst acs_find_ideal_loop.simps) (simp add: Let_def)
      moreover have "ideal_inv (channels ?s') (i + 1) (Some i)"
        using ideal_inv_first [OF _ lt u] Suc.prems(1) None by simp
      ultimately show ?thesis using that by blast
    next
      case (Some k)
      show ?thesis
      proof (cases "ld_less (survey_interference_factor ?c)
                            (survey_interference_factor ((channels s)[i := ?c] ! k))")
        case better: True
        have "acs_find_ideal_loop s i ideal = acs_find_ideal_loop ?s' (i + 1) (Some i)"
          using lt True Some better by (subst acs_find_ideal_loop.simps) (simp add: Let_def)
        moreover have "ideal_inv (channels ?s') (i + 1) (Some i)"
          using ideal_inv_better [OF _ lt u better] Suc.prems(1) Some by simp
        ultimately show ?thesis using that by blast
      next
        case worse: False
        have "acs_find_ideal_loop s i ideal = acs_find_ideal_loop ?s' (i + 1) (Some k)"
          using lt True Some worse by (subst acs_find_ideal_loop.simps) (simp add: Let_def)
        moreover have "ideal_inv (channels ?s') (i + 1) (Some k)"
          using ideal_inv_keep [OF _ lt u worse] Suc.prems(1) Some by simp
        ultimately show ?thesis using that by blast
      qed
    qed
    show ?thesis
      unfolding e using Suc.hyps(1) [of ?s' "i + 1" ideal'] Suc.hyps(2) lt inv' by simp
  qed
qed

lemma find_ideal_loop_state:
  assumes "i \<le> length (channels s)"
  shows "fst (acs_find_ideal_loop s i ideal) =
         s\<lparr>channels := take i (channels s) @ map (acs_score_chan (lowest_nf s)) (drop i (channels s))\<rparr>"
  using assms
proof (induction "length (channels s) - i" arbitrary: s i ideal)
  case 0
  then have "i = length (channels s)" by simp
  then show ?case by (subst acs_find_ideal_loop.simps) simp
next
  case (Suc m)
  then have lt: "i < length (channels s)" by simp
  let ?c = "acs_chan_interference_factor (lowest_nf s) (channels s ! i)"
  let ?s' = "s\<lparr>channels := (channels s)[i := ?c]\<rparr>"
  have split: "drop i (channels s) = channels s ! i # drop (Suc i) (channels s)"
    using lt by (simp add: Cons_nth_drop_Suc)
  show ?case
  proof (cases "acs_usable_chan (channels s ! i)")
    case False
    have e: "acs_find_ideal_loop s i ideal = acs_find_ideal_loop s (i + 1) ideal"
      using lt False by (subst acs_find_ideal_loop.simps) simp
    have "fst (acs_find_ideal_loop s (i + 1) ideal) =
          s\<lparr>channels := take (i + 1) (channels s)
                          @ map (acs_score_chan (lowest_nf s)) (drop (i + 1) (channels s))\<rparr>"
      using Suc.hyps(2) lt by (intro Suc.hyps(1)) simp_all
    then show ?thesis
      unfolding e using False lt by (simp add: split take_Suc_conv_app_nth acs_score_chan_def)
  next
    case True
    have "\<exists>ideal'. acs_find_ideal_loop s i ideal = acs_find_ideal_loop ?s' (i + 1) ideal'"
      using lt True
      by (subst acs_find_ideal_loop.simps [of s i ideal])
         (auto simp: Let_def split: option.splits)
    then obtain ideal' where
      e: "acs_find_ideal_loop s i ideal = acs_find_ideal_loop ?s' (i + 1) ideal'"
      by blast
    have "fst (acs_find_ideal_loop ?s' (i + 1) ideal') =
          ?s'\<lparr>channels := take (i + 1) (channels ?s')
                          @ map (acs_score_chan (lowest_nf ?s')) (drop (i + 1) (channels ?s'))\<rparr>"
      using Suc.hyps(2) lt by (intro Suc.hyps(1)) simp_all
    then show ?thesis
      unfolding e using True lt
      by (simp add: split take_Suc_conv_app_nth acs_score_chan_def upd_conv_take_nth_drop)
  qed
qed

lemma find_ideal_chan_state:
  "fst (acs_find_ideal_chan s) = s\<lparr>channels := map (acs_score_chan (lowest_nf s)) (channels s)\<rparr>"
  by (simp add: acs_find_ideal_chan_def find_ideal_loop_state)

lemma find_ideal_chan_inv:
  "ideal_inv (map (acs_score_chan (lowest_nf s)) (channels s)) (length (channels s))
             (snd (acs_find_ideal_chan s))"
proof -
  have "ideal_inv (channels s) 0 None" by (simp add: ideal_inv_def)
  then have "ideal_inv (channels (fst (acs_find_ideal_loop s 0 None))) (length (channels s))
                        (snd (acs_find_ideal_loop s 0 None))"
    using find_ideal_loop_inv [of s 0 None] by simp
  then show ?thesis
    by (simp add: acs_find_ideal_chan_def find_ideal_loop_state)
qed

lemma usable_score_chan: "acs_usable_chan (acs_score_chan lnf c) = acs_usable_chan c"
  by (simp add: acs_score_chan_def usable_after_factor)

lemma score_chan_usable:
  "acs_usable_chan c \<Longrightarrow> acs_score_chan lnf c = acs_chan_interference_factor lnf c"
  by (simp add: acs_score_chan_def)

lemma find_ideal_chan_Some:
  assumes "snd (acs_find_ideal_chan s) = Some k"
  shows "k < length (channels s) \<and> acs_usable_chan (channels s ! k)"
  using find_ideal_chan_inv [of s] assms
  by (auto simp: ideal_inv_def usable_score_chan)

lemma find_ideal_chan_None:
  "snd (acs_find_ideal_chan s) = None \<longleftrightarrow> (\<forall>c \<in> set (channels s). \<not> acs_usable_chan c)"
proof
  assume "snd (acs_find_ideal_chan s) = None"
  then have "\<forall>j<length (channels s). \<not> acs_usable_chan (channels s ! j)"
    using find_ideal_chan_inv [of s] by (auto simp: ideal_inv_def usable_score_chan)
  then show "\<forall>c \<in> set (channels s). \<not> acs_usable_chan c"
    by (auto simp: in_set_conv_nth)
next
  assume a: "\<forall>c \<in> set (channels s). \<not> acs_usable_chan c"
  show "snd (acs_find_ideal_chan s) = None"
  proof (cases "snd (acs_find_ideal_chan s)")
    case None
    then show ?thesis .
  next
    case (Some k)
    then show ?thesis using find_ideal_chan_Some [OF Some] a by auto
  qed
qed

text \<open>
  Among the scores it writes, \<open>acs_find_ideal_chan\<close> returns the first minimal one: no
  usable channel compares strictly below the returned channel, and no earlier usable
  channel has the same score; without a usable channel it returns \<open>NULL\<close>.
\<close>

lemma find_ideal_chan_argmin:
  "((\<exists>c \<in> set (channels s). acs_usable_chan c) \<longrightarrow>
      (\<exists>k. snd (acs_find_ideal_chan s) = Some k
           \<and> k < length (channels s)
           \<and> acs_usable_chan (channels s ! k)
           \<and> (\<forall>j < length (channels s). acs_usable_chan (channels s ! j) \<longrightarrow>
                  \<not> ld_less (acs_chan_score s j) (acs_chan_score s k))
           \<and> (\<forall>j < k. acs_usable_chan (channels s ! j) \<longrightarrow>
                  acs_chan_score s j \<noteq> acs_chan_score s k)))
   \<and> ((\<forall>c \<in> set (channels s). \<not> acs_usable_chan c) \<longrightarrow> snd (acs_find_ideal_chan s) = None)"
proof (intro conjI impI)
  assume ex: "\<exists>c \<in> set (channels s). acs_usable_chan c"
  then obtain k where k: "snd (acs_find_ideal_chan s) = Some k"
    using find_ideal_chan_None [of s] by (cases "snd (acs_find_ideal_chan s)") auto
  have kk: "k < length (channels s)" "acs_usable_chan (channels s ! k)"
    using find_ideal_chan_Some [OF k] by simp_all
  have inv: "ideal_inv (map (acs_score_chan (lowest_nf s)) (channels s)) (length (channels s)) (Some k)"
    using find_ideal_chan_inv [of s] k by simp
  have sc: "survey_interference_factor (acs_score_chan (lowest_nf s) (channels s ! j))
            = acs_chan_score s j"
    if "acs_usable_chan (channels s ! j)" for j
    using that by (simp add: acs_chan_score_def score_chan_usable)
  have raw_m: "\<not> ld_less (survey_interference_factor (acs_score_chan (lowest_nf s) (channels s ! j)))
                          (survey_interference_factor (acs_score_chan (lowest_nf s) (channels s ! k)))"
    if "j < length (channels s)" "acs_usable_chan (channels s ! j)" for j
    using inv that kk by (auto simp: ideal_inv_def usable_score_chan)
  have raw_t: "survey_interference_factor (acs_score_chan (lowest_nf s) (channels s ! j))
               \<noteq> survey_interference_factor (acs_score_chan (lowest_nf s) (channels s ! k))"
    if "j < k" "acs_usable_chan (channels s ! j)" for j
    using inv that kk by (auto simp: ideal_inv_def usable_score_chan)
  have m: "\<not> ld_less (acs_chan_score s j) (acs_chan_score s k)"
    if "j < length (channels s)" "acs_usable_chan (channels s ! j)" for j
    using raw_m [OF that] unfolding sc [OF that(2)] sc [OF kk(2)] .
  have t: "acs_chan_score s j \<noteq> acs_chan_score s k"
    if "j < k" "acs_usable_chan (channels s ! j)" for j
    using raw_t [OF that] unfolding sc [OF that(2)] sc [OF kk(2)] .
  show "\<exists>k. snd (acs_find_ideal_chan s) = Some k
           \<and> k < length (channels s)
           \<and> acs_usable_chan (channels s ! k)
           \<and> (\<forall>j < length (channels s). acs_usable_chan (channels s ! j) \<longrightarrow>
                  \<not> ld_less (acs_chan_score s j) (acs_chan_score s k))
           \<and> (\<forall>j < k. acs_usable_chan (channels s ! j) \<longrightarrow>
                  acs_chan_score s j \<noteq> acs_chan_score s k)"
    using k kk m t by blast
next
  assume "\<forall>c \<in> set (channels s). \<not> acs_usable_chan c"
  then show "snd (acs_find_ideal_chan s) = None"
    by (simp add: find_ideal_chan_None)
qed


lemma sum_surveys_foldl:
  "acs_sum_surveys lnf svs acc
   = foldl ld_add acc (map (\<lambda>sv. acs_survey_interference_factor sv lnf) svs)"
  by (induction svs arbitrary: acc) simp_all

lemma chan_score_fresh:
  assumes z: "survey_interference_factor c = Finite 0" and u: "acs_usable_chan c"
    and ok: "\<forall>sv \<in> set (survey_list c).
               survey_ok sv \<and> 0 \<le> sint (nf sv) - sint lnf \<and> sint (nf sv) - sint lnf < 64"
  shows "survey_interference_factor (acs_chan_interference_factor lnf c)
         = spec_chan_aggregate lnf c"
proof -
  have m: "map (\<lambda>sv. acs_survey_interference_factor sv lnf) (survey_list c)
           = map (\<lambda>sv. spec_interference_factor sv lnf) (survey_list c)"
    using ok by (intro map_cong refl survey_factor_small_exponent) simp_all
  have "\<not> (survey_list c = [] \<or> chan_disabled c)"
    using u by (simp add: acs_usable_chan_def split: if_splits)
  then show ?thesis
    by (simp add: acs_chan_interference_factor_def spec_chan_aggregate_def sum_surveys_foldl z m)
qed

text \<open>
  On an interface whose usable channels all enter with a score of 0 and with
  measurements inside the data model, the written scores are the specification's means,
  and the selection is the first minimal mean.
\<close>

lemma find_ideal_chan_fresh_argmin:
  assumes fresh: "\<forall>c \<in> set (channels s). acs_usable_chan c \<longrightarrow>
            survey_interference_factor c = Finite 0
            \<and> (\<forall>sv \<in> set (survey_list c).
                  survey_ok sv \<and> 0 \<le> sint (nf sv) - sint (lowest_nf s)
                  \<and> sint (nf sv) - sint (lowest_nf s) < 64)"
    and ex: "\<exists>c \<in> set (channels s). acs_usable_chan c"
  shows "\<exists>k. snd (acs_find_ideal_chan s) = Some k
           \<and> k < length (channels s)
           \<and> acs_usable_chan (channels s ! k)
           \<and> (\<forall>j < length (channels s). acs_usable_chan (channels s ! j) \<longrightarrow>
                  \<not> ld_less (spec_chan_aggregate (lowest_nf s) (channels s ! j))
                             (spec_chan_aggregate (lowest_nf s) (channels s ! k)))
           \<and> (\<forall>j < k. acs_usable_chan (channels s ! j) \<longrightarrow>
                  spec_chan_aggregate (lowest_nf s) (channels s ! j)
                  \<noteq> spec_chan_aggregate (lowest_nf s) (channels s ! k))"
proof -
  have sc: "acs_chan_score s j = spec_chan_aggregate (lowest_nf s) (channels s ! j)"
    if "j < length (channels s)" "acs_usable_chan (channels s ! j)" for j
  proof -
    have "channels s ! j \<in> set (channels s)" using that by simp
    then show ?thesis
      using fresh that unfolding acs_chan_score_def by (intro chan_score_fresh) auto
  qed
  obtain k where k: "snd (acs_find_ideal_chan s) = Some k" "k < length (channels s)"
      "acs_usable_chan (channels s ! k)"
    and m: "\<forall>j < length (channels s). acs_usable_chan (channels s ! j) \<longrightarrow>
              \<not> ld_less (acs_chan_score s j) (acs_chan_score s k)"
    and t: "\<forall>j < k. acs_usable_chan (channels s ! j) \<longrightarrow> acs_chan_score s j \<noteq> acs_chan_score s k"
    using find_ideal_chan_argmin [of s] ex by blast
  have m': "\<not> ld_less (spec_chan_aggregate (lowest_nf s) (channels s ! j))
                      (spec_chan_aggregate (lowest_nf s) (channels s ! k))"
    if "j < length (channels s)" "acs_usable_chan (channels s ! j)" for j
  proof -
    have "\<not> ld_less (acs_chan_score s j) (acs_chan_score s k)" using m that by blast
    then show ?thesis unfolding sc [OF that] sc [OF k(2,3)] .
  qed
  have t': "spec_chan_aggregate (lowest_nf s) (channels s ! j)
            \<noteq> spec_chan_aggregate (lowest_nf s) (channels s ! k)"
    if "j < k" "acs_usable_chan (channels s ! j)" for j
  proof -
    have j: "j < length (channels s)" using that k by simp
    have "acs_chan_score s j \<noteq> acs_chan_score s k" using t that by blast
    then show ?thesis unfolding sc [OF j that(2)] sc [OF k(2,3)] .
  qed
  show ?thesis using k m' t' by blast
qed

lemma sim_spec_factor_eighth:
  "spec_interference_factor (sim_survey 1000 125) (- 95) = Finite (- 3)"
  by (simp add: spec_interference_factor_def sim_survey_def log_divide log2_8)

lemma sim_spec_factor_sixteenth:
  "spec_interference_factor (sim_survey 1600 100) (- 95) = Finite (- 4)"
  by (simp add: spec_interference_factor_def sim_survey_def log_divide log2_16)

text \<open>
  C2. When the channel list has a usable channel, \<open>acs_find_ideal_chan\<close> returns the
  first usable channel whose aggregate score, the mean of the factors of its
  measurements, is minimal; without a usable channel it returns \<open>NULL\<close>. The code breaks
  this on an interface that has been through an invocation before: \<open>acs_cleanup\<close>
  leaves each channel's \<open>survey_interference_factor\<close> and
  \<open>acs_chan_interference_factor\<close> adds to it. At the decision of the second invocation
  of the scenario, channel 6 has the smaller mean (-7/2 against -3) and the selector
  returns channel 1, on the written scores -6 and -21/4.
\<close>

theorem find_ideal_chan_stale_score:
  "acs_usable_chan (channels sim_resurveyed ! 0)
   \<and> acs_usable_chan (channels sim_resurveyed ! 1)
   \<and> spec_chan_aggregate (lowest_nf sim_resurveyed) (channels sim_resurveyed ! 0) = Finite (- 3)
   \<and> spec_chan_aggregate (lowest_nf sim_resurveyed) (channels sim_resurveyed ! 1)
       = Finite (- 7 / 2)
   \<and> ld_less (spec_chan_aggregate (lowest_nf sim_resurveyed) (channels sim_resurveyed ! 1))
             (spec_chan_aggregate (lowest_nf sim_resurveyed) (channels sim_resurveyed ! 0))
   \<and> snd (acs_find_ideal_chan sim_resurveyed) = Some 0
   \<and> map survey_interference_factor (channels (fst (acs_find_ideal_chan sim_resurveyed)))
       = [Finite (- 6), Finite (- 21 / 4)]
   \<and> channels (iface (snd (hostapd_drv_survey_freq (sim_ops sim_report 0)
        (acs_run (sim_ops sim_report 0) (sim_world sim_chans) (sim_sweep @ take 5 sim_sweep))
        2437)))
       = channels sim_resurveyed
   \<and> lowest_nf (iface (snd (hostapd_drv_survey_freq (sim_ops sim_report 0)
        (acs_run (sim_ops sim_report 0) (sim_world sim_chans) (sim_sweep @ take 5 sim_sweep))
        2437)))
       = lowest_nf sim_resurveyed"
proof -
  have u: "acs_usable_chan (channels sim_resurveyed ! 0)"
          "acs_usable_chan (channels sim_resurveyed ! 1)"
    by (simp_all add: sim_resurveyed_def sim_defs acs_usable_chan_def chan_disabled_def
        HOSTAPD_CHAN_DISABLED_def)
  have a0: "spec_chan_aggregate (lowest_nf sim_resurveyed) (channels sim_resurveyed ! 0)
            = Finite (- 3)"
    by (simp add: spec_chan_aggregate_def sim_resurveyed_def sim_iface_def sim_chan_def
        sim_report_def ld_of_nat_def sim_spec_factor_eighth)
  have a1: "spec_chan_aggregate (lowest_nf sim_resurveyed) (channels sim_resurveyed ! 1)
            = Finite (- 7 / 2)"
    by (simp add: spec_chan_aggregate_def sim_resurveyed_def sim_iface_def sim_chan_def
        sim_report_def ld_of_nat_def sim_spec_factor_eighth sim_spec_factor_sixteenth)
  have l: "ld_less (spec_chan_aggregate (lowest_nf sim_resurveyed) (channels sim_resurveyed ! 1))
             (spec_chan_aggregate (lowest_nf sim_resurveyed) (channels sim_resurveyed ! 0))"
    unfolding a0 a1 by simp
  have k: "snd (acs_find_ideal_chan sim_resurveyed) = Some 0"
    by (simp add: sim_resurveyed_def sim_defs ctl_defs)
  have w: "map survey_interference_factor (channels (fst (acs_find_ideal_chan sim_resurveyed)))
       = [Finite (- 6), Finite (- 21 / 4)]"
    by (simp add: sim_resurveyed_def sim_defs ctl_defs)
  have r1: "channels (iface (snd (hostapd_drv_survey_freq (sim_ops sim_report 0)
        (acs_run (sim_ops sim_report 0) (sim_world sim_chans) (sim_sweep @ take 5 sim_sweep))
        2437)))
       = channels sim_resurveyed"
    by (simp add: sim_resurveyed_def sim_defs ctl_defs)
  have r2: "lowest_nf (iface (snd (hostapd_drv_survey_freq (sim_ops sim_report 0)
        (acs_run (sim_ops sim_report 0) (sim_world sim_chans) (sim_sweep @ take 5 sim_sweep))
        2437)))
       = lowest_nf sim_resurveyed"
    by (simp add: sim_resurveyed_def sim_defs ctl_defs)
  show ?thesis
    using u a0 a1 l k w r1 r2 by (intro conjI)
qed

section \<open>Disabled channels\<close>

lemma study_loop_log:
  "roc_log_enabled (roc_log w) \<Longrightarrow>
   roc_log_enabled (roc_log (snd (acs_study_next_loop ops w i)))"
proof (induction ops w i rule: acs_study_next_loop.induct)
  case (1 ops w i)
  show ?case
  proof (cases "i < length (channels (iface w))")
    case False
    then show ?thesis using "1.prems" by (subst acs_study_next_loop.simps) simp
  next
    case True
    show ?thesis
    proof (cases "chan_disabled (channels (iface w) ! i)")
      case dis: True
      have "acs_study_next_loop ops w i = acs_study_next_loop ops w (i + 1)"
        using True dis by (subst acs_study_next_loop.simps) (simp add: Let_def)
      then show ?thesis using "1.IH" [OF True refl dis] "1.prems" by simp
    next
      case en: False
      then show ?thesis
        using True "1.prems"
        by (subst acs_study_next_loop.simps)
           (simp add: Let_def hostapd_drv_remain_on_channel_def roc_log_enabled_def
             split: prod.splits)
    qed
  qed
qed

lemma study_next_freq_log:
  "roc_log_enabled (roc_log w) \<Longrightarrow>
   roc_log_enabled (roc_log (snd (acs_study_next_freq ops w)))"
  by (simp add: acs_study_next_freq_def study_loop_log)

lemma study_next_freq_log':
  "roc_log_enabled (roc_log w) \<Longrightarrow> acs_study_next_freq ops w = (st, w') \<Longrightarrow>
   roc_log_enabled (roc_log w')"
  using study_next_freq_log [of w ops] by simp

lemma acs_fail_log: "roc_log (snd (acs_fail w)) = roc_log w"
  by (simp add: acs_fail_def)

lemma survey_freq_log: "roc_log (snd (hostapd_drv_survey_freq ops w f)) = roc_log w"
  by (simp add: hostapd_drv_survey_freq_def split: prod.splits)

lemma acs_completed_log: "roc_log (snd (hostapd_acs_completed ops w)) = roc_log w"
  by (simp add: hostapd_acs_completed_def split: prod.splits)

lemma driver_scan_log: "roc_log (snd (hostapd_driver_scan ops w)) = roc_log w"
  by (simp add: hostapd_driver_scan_def split: prod.splits)

lemma acs_completed_log':
  "hostapd_acs_completed ops w = (r, w') \<Longrightarrow> roc_log w' = roc_log w"
  using acs_completed_log [of ops w] by simp

lemma study_complete_log:
  assumes "roc_log_enabled (roc_log w)"
  shows "roc_log_enabled (roc_log (snd (acs_study_complete ops w)))"
proof -
  let ?w1 = "w\<lparr>iface := (iface w)\<lparr>acs_num_completed_surveys :=
                                      acs_num_completed_surveys (iface w) + 1\<rparr>\<rparr>"
  let ?w2 = "?w1\<lparr>iface := (iface ?w1)\<lparr>off_channel_freq_idx := 0\<rparr>\<rparr>"
  have a: "roc_log_enabled (roc_log (snd (acs_study_next_freq ops ?w2)))"
    using assms by (intro study_next_freq_log) simp
  show ?thesis
    using assms a
    by (auto simp: acs_study_complete_def Let_def acs_fail_def
        split: prod.splits hostapd_chan_status.splits option.splits
        dest!: acs_completed_log')
qed

lemma roc_next_log:
  assumes "roc_log_enabled (roc_log w)"
  shows "roc_log_enabled (roc_log (snd (acs_roc_next ops w f d)))"
proof -
  obtain err w1 where s: "hostapd_drv_survey_freq ops w f = (err, w1)" by force
  then have l1: "roc_log_enabled (roc_log w1)"
    using survey_freq_log [of ops w f] assms by simp
  let ?w1 = "w1\<lparr>iface := (iface w1)\<lparr>off_channel_freq_idx := off_channel_freq_idx (iface w1) + 1\<rparr>\<rparr>"
  obtain st w2 where n: "acs_study_next_freq ops ?w1 = (st, w2)" by force
  have l2: "roc_log_enabled (roc_log w2)"
    using study_next_freq_log' [OF _ n] l1 by simp
  show ?thesis
    using s n l1 l2 study_complete_log [OF l2, of ops]
    by (cases st) (simp_all add: acs_roc_next_def acs_fail_def)
qed

lemma init_scan_complete_log:
  assumes "roc_log_enabled (roc_log w)"
  shows "roc_log_enabled (roc_log (snd (acs_init_scan_complete ops w)))"
proof -
  let ?w1 = "w\<lparr>iface := (acs_cleanup (iface w))\<lparr>acs_num_completed_surveys := 0\<rparr>\<rparr>"
  obtain st w2 where n: "acs_study_next_freq ops ?w1 = (st, w2)" by force
  have l2: "roc_log_enabled (roc_log w2)"
    using study_next_freq_log' [OF _ n] assms by simp
  show ?thesis
    using n l2 by (cases st) (simp_all add: acs_init_scan_complete_def Let_def acs_fail_def)
qed

lemma acs_init_log: "roc_log (snd (acs_init ops w)) = roc_log w"
  by (simp add: acs_init_def acs_init_scan_def hostapd_driver_scan_def split: prod.splits)

lemma acs_step_log:
  assumes "roc_log_enabled (roc_log w)"
  shows "roc_log_enabled (roc_log (acs_step ops w ev))"
proof (cases ev)
  case Ev_init
  then show ?thesis using assms by (simp add: acs_init_log)
next
  case Ev_scan_complete
  then show ?thesis
    using assms init_scan_complete_log [OF assms, of ops]
    by (simp split: option.splits scan_callback.splits)
next
  case (Ev_roc f d st)
  then show ?thesis using assms by (simp add: hostapd_notify_acs_roc_def acs_fail_def)
next
  case (Ev_roc_cancel f d st)
  then show ?thesis
    using assms roc_next_log [OF assms, of ops f d]
    by (simp add: hostapd_notify_acs_roc_cancel_def acs_fail_def)
qed

lemma acs_run_log:
  "roc_log_enabled (roc_log w) \<Longrightarrow> roc_log_enabled (roc_log (acs_run ops w evs))"
  unfolding acs_run_def
  by (induction evs arbitrary: w) (simp_all add: acs_step_log)

lemma usable_not_disabled: "acs_usable_chan c \<Longrightarrow> \<not> chan_disabled c"
  by (simp add: acs_usable_chan_def split: if_splits)


text \<open>
  C7. In every execution of the controller, whatever the channel list, the driver and
  the sequence of events, no dwell request is made on a channel whose flags include
  \<open>DISABLED\<close>; and in every interface state the channel \<open>acs_find_ideal_chan\<close> returns
  is not disabled.
\<close>

theorem disabled_never_dwelled_nor_selected:
  "(roc_log w = [] \<longrightarrow>
      (\<forall>e \<in> set (roc_log (acs_run ops w evs)). \<not> chan_disabled (fst e)))
   \<and> (snd (acs_find_ideal_chan s) = Some k \<longrightarrow>
      k < length (channels s) \<and> \<not> chan_disabled (channels s ! k)
      \<and> \<not> chan_disabled (channels (fst (acs_find_ideal_chan s)) ! k))"
proof (intro conjI impI)
  assume "roc_log w = []"
  then have "roc_log_enabled (roc_log w)" by (simp add: roc_log_enabled_def)
  then have "roc_log_enabled (roc_log (acs_run ops w evs))" by (rule acs_run_log)
  then show "\<forall>e \<in> set (roc_log (acs_run ops w evs)). \<not> chan_disabled (fst e)"
    by (simp add: roc_log_enabled_def)
next
  assume a: "snd (acs_find_ideal_chan s) = Some k"
  show "k < length (channels s)" using find_ideal_chan_Some [OF a] by simp
next
  assume a: "snd (acs_find_ideal_chan s) = Some k"
  show "\<not> chan_disabled (channels s ! k)"
    using find_ideal_chan_Some [OF a] by (simp add: usable_not_disabled)
next
  assume a: "snd (acs_find_ideal_chan s) = Some k"
  have "acs_usable_chan (acs_score_chan (lowest_nf s) (channels s ! k))"
    using find_ideal_chan_Some [OF a] by (simp add: usable_score_chan)
  then show "\<not> chan_disabled (channels (fst (acs_find_ideal_chan s)) ! k)"
    using find_ideal_chan_Some [OF a]
    by (simp add: find_ideal_chan_state usable_not_disabled)
qed

theorem disabled_never_dwelled_nor_selected_witness:
  "roc_log_enabled (roc_log (acs_run (sim_ops sim_report 0)
      (sim_world [sim_chan 1 2412 1, sim_chan 6 2437 0])
      [Ev_init, Ev_scan_complete, Ev_roc 2437 100 0, Ev_roc_cancel 2437 100 0]))
   \<and> map (\<lambda>e. freq (fst e)) (roc_log (acs_run (sim_ops sim_report 0)
      (sim_world [sim_chan 1 2412 1, sim_chan 6 2437 0])
      [Ev_init, Ev_scan_complete, Ev_roc 2437 100 0, Ev_roc_cancel 2437 100 0])) = [2437]
   \<and> conf_channel (iface (acs_run (sim_ops sim_report 0)
      (sim_world [sim_chan 1 2412 1, sim_chan 6 2437 0])
      [Ev_init, Ev_scan_complete, Ev_roc 2437 100 0, Ev_roc_cancel 2437 100 0])) = 6
   \<and> \<not> chan_disabled (channels sim_surveyed ! 1)"
proof -
  let ?w = "sim_world [sim_chan 1 2412 1, sim_chan 6 2437 0]"
  let ?evs = "[Ev_init, Ev_scan_complete, Ev_roc 2437 100 0, Ev_roc_cancel 2437 100 0]"
  have e: "roc_log ?w = []" by (simp add: sim_world_def)
  have k: "snd (acs_find_ideal_chan sim_surveyed) = Some 1"
    by (simp add: sim_surveyed_def sim_defs ctl_defs)
  have r: "map (\<lambda>e. freq (fst e)) (roc_log (acs_run (sim_ops sim_report 0) ?w ?evs)) = [2437]"
    by (simp add: sim_defs ctl_defs)
  have c: "conf_channel (iface (acs_run (sim_ops sim_report 0) ?w ?evs)) = 6"
    by (simp add: sim_defs ctl_defs)
  show ?thesis
    using disabled_never_dwelled_nor_selected
            [of ?w "sim_ops sim_report 0" ?evs sim_surveyed 1] e k r c
    by (simp add: roc_log_enabled_def)
qed

section \<open>Two invocations in a row\<close>

text \<open>
  C1. Two invocations of the engine in a row on the same interface, the driver
  reporting the same survey data both times, write the same channel to \<open>conf.channel\<close>.
  The code breaks this: \<open>acs_cleanup\<close> leaves each channel's
  \<open>survey_interference_factor\<close> as it is and \<open>acs_chan_interference_factor\<close> adds to it,
  so the second invocation scores on top of the first. With the simulated driver the
  first invocation selects channel 6 and the second channel 1.
\<close>

theorem acs_back_to_back_differs:
  "conf_channel (iface (acs_run (sim_ops sim_report 0) (sim_world sim_chans) sim_sweep)) = 6
   \<and> conf_channel (iface (acs_run (sim_ops sim_report 0)
        (acs_run (sim_ops sim_report 0) (sim_world sim_chans) sim_sweep) sim_sweep)) = 1
   \<and> map survey_interference_factor
        (channels (iface (acs_run (sim_ops sim_report 0) (sim_world sim_chans) sim_sweep)))
      = [Finite (- 3), Finite (- 7 / 2)]
   \<and> map survey_interference_factor
        (channels (iface (acs_run (sim_ops sim_report 0)
           (acs_run (sim_ops sim_report 0) (sim_world sim_chans) sim_sweep) sim_sweep)))
      = [Finite (- 6), Finite (- 21 / 4)]"
  by (simp add: sim_defs ctl_defs)

end
